theory Spec2Isabelle
  imports Main "HOL-Library.Word"
begin

unbundle bit_operations_syntax

section \<open>Status codes\<close>

text \<open>The status values the two source files name (the enum itself is declared in a
  header that is not among the sources).\<close>

datatype UhdaStatus =
    UHDA_STATUS_SUCCESS
  | UHDA_STATUS_UNSUPPORTED
  | UHDA_STATUS_NO_MEMORY
  | UHDA_STATUS_TIMEOUT

section \<open>Register bit fields\<close>

text \<open>Modelled from the spec: the register helper types (\<open>BitField\<close>, \<open>BitValue\<close> of
  utils.hpp) and the field tables of spec.hpp are missing from the sources. The spec
  describes them as typed fixed-width fields at known offsets. A field is its bit offset
  and its width; the position of every concrete field is left as a parameter of the
  functions below.\<close>

record BitField =
  bf_offset :: nat
  bf_bits :: nat

text \<open>\<open>reg & FIELD\<close>: the value of the field, shifted down to bit 0.\<close>

definition field_get :: "'a::len word \<Rightarrow> BitField \<Rightarrow> 'a word" where
  "field_get v f = drop_bit (bf_offset f) v AND mask (bf_bits f)"

text \<open>\<open>FIELD(x)\<close>: the value \<open>x\<close> placed at the field's position.\<close>

definition field_val :: "BitField \<Rightarrow> 'a::len word \<Rightarrow> 'a word" where
  "field_val f x = push_bit (bf_offset f) (x AND mask (bf_bits f))"

text \<open>\<open>reg &= ~FIELD\<close>: the field cleared, every other bit kept.\<close>

definition field_clear :: "'a::len word \<Rightarrow> BitField \<Rightarrow> 'a word" where
  "field_clear v f = v AND NOT (push_bit (bf_offset f) (mask (bf_bits f)))"

text \<open>A field that lies inside a register of the given width.\<close>

definition field_in :: "BitField \<Rightarrow> nat \<Rightarrow> bool" where
  "field_in f w \<longleftrightarrow> 0 < bf_bits f \<and> bf_offset f + bf_bits f \<le> w"

section \<open>Streams: \<open>uhda_stream_play\<close>, \<open>uhda_stream_setup\<close>, \<open>uhda_stream_queue_data\<close>\<close>

text \<open>The fields of \<open>UhdaStream\<close> that uhda.cpp reads and writes. \<open>sd_CTL0\<close> is the
  stream's control register behind \<open>stream->space\<close>; \<open>sd_FMT\<close> its format register.
  Memory is a list of bytes: \<open>ring_buffer\<close> is the memory the ring-buffer pointer
  addresses, \<open>buffer_pages\<close> the memory of the hardware pages.\<close>

text \<open>(\<open>output_flag\<close> is the member \<open>output\<close>, a reserved word here.)\<close>

record UhdaStream =
  output_flag :: bool
  index :: "8 word"
  sd_CTL0 :: "8 word"
  sd_FMT :: "16 word"
  buffer_pages :: "8 word list list"
  ring_buffer :: "8 word list"
  ring_buffer_size :: "32 word"
  ring_buffer_read_pos :: "32 word"
  current_pos :: "32 word"

text \<open>\<open>memcpy(dst, src + off, n)\<close> on byte lists: the first \<open>n\<close> bytes of \<open>dst\<close> are
  replaced by the \<open>n\<close> bytes of \<open>src\<close> from offset \<open>off\<close>.\<close>

definition memcpy_from :: "8 word list \<Rightarrow> 8 word list \<Rightarrow> nat \<Rightarrow> nat \<Rightarrow> 8 word list" where
  "memcpy_from dst src off n = take n (drop off src) @ drop n dst"

text \<open>The copy loop of \<open>uhda_stream_play\<close>:
  \<open>for (i = 0; i < initial_amount; i += 0x1000) memcpy(buffer_pages[i / 0x1000], ring_buffer + i, 0x1000)\<close>.\<close>

function play_copy :: "nat \<Rightarrow> nat \<Rightarrow> 8 word list \<Rightarrow> 8 word list list \<Rightarrow> 8 word list list" where
  "play_copy i initial_amount rb pages =
     (if i < initial_amount
      then play_copy (i + 0x1000) initial_amount rb
             (pages[i div 0x1000 := memcpy_from (pages ! (i div 0x1000)) rb i 0x1000])
      else pages)"
  by pat_completeness auto
termination
  by (relation "measure (\<lambda>(i, n, rb, pages). n - i)") auto

declare play_copy.simps [simp del]

text \<open>\<open>uhda_stream_play\<close>; \<open>RUN\<close> is the field \<open>sdctl0::RUN\<close>. The result is the returned
  status and the stream afterwards.\<close>

definition uhda_stream_play :: "BitField \<Rightarrow> UhdaStream \<Rightarrow> bool \<Rightarrow> UhdaStatus \<times> UhdaStream" where
  "uhda_stream_play RUN stream play =
     (let ctl0 = sd_CTL0 stream in
      if play then
        (if field_get ctl0 RUN = 0 then
           (let initial_amount = 0x1000 * 4;
                s1 = stream\<lparr>buffer_pages :=
                        play_copy 0 initial_amount (ring_buffer stream) (buffer_pages stream)\<rparr>;
                s2 = s1\<lparr>ring_buffer_size := ring_buffer_size s1 - of_nat initial_amount\<rparr>;
                s3 = s2\<lparr>ring_buffer_read_pos := ring_buffer_read_pos s2 + of_nat initial_amount\<rparr>;
                s4 = s3\<lparr>current_pos := of_nat initial_amount\<rparr>;
                ctl0' = ctl0 OR field_val RUN 1
            in (UHDA_STATUS_SUCCESS, s4\<lparr>sd_CTL0 := ctl0'\<rparr>))
         else (UHDA_STATUS_SUCCESS, stream))
      else
        (if field_get ctl0 RUN \<noteq> 0
         then (UHDA_STATUS_SUCCESS, stream\<lparr>sd_CTL0 := field_clear ctl0 RUN\<rparr>)
         else (UHDA_STATUS_SUCCESS, stream)))"

text \<open>\<open>uhda_stream_setup\<close>. \<open>pcm_format_from_params\<close> uses the \<open>PcmFormat\<close> helper and
  \<open>stream->setup\<close> is defined in a file that is not among the sources: the format value
  \<open>fmt\<close> and the method \<open>setup\<close> are parameters. The callback pointers are not modelled.\<close>

definition uhda_stream_setup ::
  "(UhdaStream \<Rightarrow> 32 word \<Rightarrow> UhdaStatus \<times> UhdaStream) \<Rightarrow> UhdaStream \<Rightarrow> 16 word \<Rightarrow> 32 word
     \<Rightarrow> UhdaStatus \<times> UhdaStream" where
  "uhda_stream_setup setup stream fmt ring_buffer_size_arg =
     (if \<not> output_flag stream then (UHDA_STATUS_UNSUPPORTED, stream)
      else setup (stream\<lparr>sd_FMT := fmt\<rparr>) ring_buffer_size_arg)"

text \<open>\<open>uhda_stream_queue_data\<close>; the method \<open>queue_data\<close> is a parameter for the same
  reason. It returns the stream afterwards and the size it accepted.\<close>

definition uhda_stream_queue_data ::
  "(UhdaStream \<Rightarrow> 8 word list \<Rightarrow> 32 word \<Rightarrow> UhdaStream \<times> 32 word) \<Rightarrow> UhdaStream \<Rightarrow> 8 word list
     \<Rightarrow> 32 word \<Rightarrow> UhdaStatus \<times> UhdaStream \<times> 32 word" where
  "uhda_stream_queue_data queue_data stream data size_arg =
     (if \<not> output_flag stream then (UHDA_STATUS_UNSUPPORTED, stream, size_arg)
      else (UHDA_STATUS_SUCCESS, queue_data stream data size_arg))"

section \<open>Widgets, paths and codec verbs\<close>

text \<open>The widget types uhda.cpp distinguishes; every other type takes no branch.\<close>

datatype widget_type = AUDIO_OUT | AUDIO_MIXER | PIN_COMPLEX | OTHER_TYPE

text \<open>The members of a widget that uhda.cpp reads (\<open>wtype\<close> is the member \<open>type\<close>).\<close>

record UhdaWidget =
  wtype :: widget_type
  nid :: "8 word"
  connections :: "8 word list"
  pin_caps :: "32 word"
  out_amp_caps :: "32 word"

text \<open>A path holds pointers to widgets it does not own, index 0 the pin and the last one
  the converter. A pointer is an address; the widgets live in a store that maps an address
  to the widget there, so that two paths can hold the same widget.\<close>

type_synonym widget_ptr = nat

type_synonym widget_store = "widget_ptr \<Rightarrow> UhdaWidget"

record UhdaPath =
  widgets :: "widget_ptr list"
  gain :: "32 word"

text \<open>The codec methods uhda.cpp calls, each one verb sent to the codec with the node id
  first. The codec lives in a file that is not among the sources: it is a parameter, a
  function that answers every verb with a status.\<close>

datatype verb =
    set_converter_format "8 word" "16 word"
  | set_converter_channel_count "8 word" "16 word"
  | set_selected_connection "8 word" "64 word"
  | set_power_state "8 word" "8 word"
  | set_eapd_enable "8 word" "8 word"
  | set_amp_gain_mute "8 word" "16 word"
  | set_pin_control "8 word" "32 word"
  | set_converter_control "8 word" "8 word" "8 word"

type_synonym codec = "verb \<Rightarrow> UhdaStatus"

section \<open>\<open>uhda_paths_usable_simultaneously\<close>\<close>

text \<open>The four nested loops. The only exits are \<open>return false\<close> inside the innermost
  body and \<open>return true\<close> after the loops, so the function is true exactly when every
  iteration passes; \<open>count\<close> is the length of the array \<open>paths\<close>. An iteration with
  \<open>j == i\<close> is skipped. In the innermost body the two predecessors are compared first:
  when they are equal the iteration fails unless \<open>same_stream\<close>, otherwise it fails when
  the two widgets are equal.\<close>

definition uhda_paths_usable_simultaneously :: "UhdaPath list \<Rightarrow> bool \<Rightarrow> bool" where
  "uhda_paths_usable_simultaneously paths same_stream =
     list_all (\<lambda>i.
       let path = paths ! i in
       list_all (\<lambda>widget_i.
         let widget = widgets path ! widget_i in
         list_all (\<lambda>j.
           if j = i then True
           else
             let other_path = paths ! j in
             list_all (\<lambda>other_widget_i.
               let other_widget = widgets other_path ! other_widget_i in
               if widgets path ! (widget_i - 1) = widgets other_path ! (other_widget_i - 1)
               then same_stream
               else widget \<noteq> other_widget)
             [1..<length (widgets other_path)])
         [0..<length paths])
       [1..<length (widgets path)])
     [0..<length paths]"

section \<open>The connection-selector scan of \<open>uhda_path_setup\<close>\<close>

text \<open>What one run of the scan loop can end in: the index it computed, or a read of
  \<open>connections[j - 1]\<close> with \<open>j = 0\<close>, which is outside the array.\<close>

datatype scan_result = Selected "64 word" | OutOfBounds

text \<open>The loop over \<open>j\<close>, lines 268 to 285. \<open>idx\<close> is the local \<open>index\<close>, a \<open>size_t\<close>; the entries and the
  node id are bytes, promoted to \<open>int\<close> in the subtractions and then added to the index.\<close>

function connection_scan :: "8 word list \<Rightarrow> 8 word \<Rightarrow> nat \<Rightarrow> 64 word \<Rightarrow> scan_result" where
  "connection_scan conns prev_nid j idx =
     (if j < length conns then
        (let connection = conns ! j in
         if connection AND push_bit 7 1 \<noteq> 0 then
           (if j = 0 then OutOfBounds
            else
              let start = conns ! (j - 1);
                  end_nid = connection AND 0x7F
              in if start \<le> prev_nid \<and> prev_nid \<le> end_nid
                 then Selected (idx + (ucast prev_nid - ucast start))
                 else connection_scan conns prev_nid (j + 1) (idx + (ucast end_nid - ucast start)))
         else
           (if prev_nid = connection then Selected idx
            else connection_scan conns prev_nid (j + 1) (idx + 1)))
      else Selected idx)"
  by pat_completeness auto
termination
  by (relation "measure (\<lambda>(conns, prev_nid, j, idx). length conns - j)") auto

declare connection_scan.simps [simp del]

text \<open>The connection list as the claim reads it, following the spec's words: an entry
  with the top bit set is a range whose inclusive start bound is the entry before it, and
  it stands for the node ids after that start up to its own low seven bits; any other
  entry stands for itself.\<close>

fun flatten_connections :: "8 word option \<Rightarrow> 8 word list \<Rightarrow> 8 word list" where
  "flatten_connections prev [] = []"
| "flatten_connections prev (c # cs) =
     (if c AND 0x80 \<noteq> 0
      then (case prev of
              None \<Rightarrow> []
            | Some start \<Rightarrow>
                map of_nat [Suc (unat start)..<Suc (unat (c AND 0x7F))])
           @ flatten_connections (Some c) cs
      else c # flatten_connections (Some c) cs)"

text \<open>The zero-based position of the first occurrence of a node id in a list, if any.\<close>

fun position_of :: "8 word \<Rightarrow> 8 word list \<Rightarrow> nat option" where
  "position_of x [] = None"
| "position_of x (y # ys) =
     (if x = y then Some 0 else map_option Suc (position_of x ys))"

section \<open>\<open>uhda_path_set_volume\<close>\<close>

text \<open>\<open>volume\<close> is an \<open>int\<close>: a 32-bit word read as two's complement. The product
  \<open>one_percentage * volume\<close> is computed in \<open>int\<close> and stored into a \<open>uint32_t\<close>, which
  keeps the bits; the comparison with \<open>max_value\<close> is then unsigned. The result is the
  status, the path afterwards and the verbs sent. An empty path has no last widget;
  the model then answers nothing.\<close>

definition uhda_path_set_volume ::
  "codec \<Rightarrow> widget_store \<Rightarrow> UhdaPath \<Rightarrow> 32 word \<Rightarrow> (UhdaStatus \<times> UhdaPath \<times> verb list) option" where
  "uhda_path_set_volume cdc store path volume0 =
     (let volume = (if 100 <s volume0 then 100 else volume0) in
      if widgets path = [] then None
      else
        let output = store (last (widgets path)) in
        if wtype output \<noteq> AUDIO_OUT then Some (UHDA_STATUS_UNSUPPORTED, path, [])
        else
          let max_value = (ucast (out_amp_caps output AND 0x7F) :: 8 word);
              one_percentage0 = max_value div 100;
              one_percentage = (if one_percentage0 = 0 then 1 else one_percentage0);
              value0 = (ucast one_percentage * volume :: 32 word);
              value = (if value0 > ucast max_value \<or> volume = 100 then ucast max_value else value0);
              path' = path\<lparr>gain := value\<rparr>;
              amp_data = (ucast (push_bit 15 1 OR push_bit 13 1 OR push_bit 12 1 OR value) :: 16 word);
              v = set_amp_gain_mute (nid output) amp_data
          in Some (cdc v, path', [v]))"

section \<open>\<open>uhda_path_setup\<close>\<close>

text \<open>Where control is after a statement of the function: it has returned a status, it
  goes on to the next statement, or it has read outside an array. The state carried along
  is the list of verbs sent so far and the path.\<close>

datatype 's flow = Return UhdaStatus 's | Continue 's | Fault

type_synonym setup_state = "verb list \<times> UhdaPath"

definition and_then :: "'s flow \<Rightarrow> ('s \<Rightarrow> 's flow) \<Rightarrow> 's flow" where
  "and_then m f = (case m of Return st s \<Rightarrow> Return st s | Continue s \<Rightarrow> f s | Fault \<Rightarrow> Fault)"

text \<open>\<open>status = codec->verb(...); if (status != UHDA_STATUS_SUCCESS) return status;\<close>\<close>

definition return_on_failure :: "codec \<Rightarrow> verb \<Rightarrow> setup_state \<Rightarrow> setup_state flow" where
  "return_on_failure cdc v s =
     (let status = cdc v; s' = (fst s @ [v], snd s)
      in if status \<noteq> UHDA_STATUS_SUCCESS then Return status s' else Continue s')"

text \<open>\<open>status = codec->verb(...); if (status == UHDA_STATUS_SUCCESS) return status;\<close>,
  as written at lines 328 and 346.\<close>

definition return_on_success :: "codec \<Rightarrow> verb \<Rightarrow> setup_state \<Rightarrow> setup_state flow" where
  "return_on_success cdc v s =
     (let status = cdc v; s' = (fst s @ [v], snd s)
      in if status = UHDA_STATUS_SUCCESS then Return status s' else Continue s')"

text \<open>Lines 264 to 291: the connection is selected for a widget after the first that has
  more than one connection.\<close>

definition setup_select_connection ::
  "codec \<Rightarrow> widget_store \<Rightarrow> nat \<Rightarrow> setup_state \<Rightarrow> setup_state flow" where
  "setup_select_connection cdc store i s =
     (let widget = store (widgets (snd s) ! i) in
      if i > 0 \<and> length (connections widget) > 1 then
        (let prev_widget = store (widgets (snd s) ! (i - 1)) in
         case connection_scan (connections widget) (nid prev_widget) 0 0 of
           OutOfBounds \<Rightarrow> Fault
         | Selected idx \<Rightarrow> return_on_failure cdc (set_selected_connection (nid widget) idx) s)
      else Continue s)"

text \<open>Lines 298 to 349: the branch taken by the widget's type. The amplifier word is
  \<open>1 << 15 | 1 << 13 | 1 << 12 | step\<close>.\<close>

definition amp_data_of :: "8 word \<Rightarrow> 16 word" where
  "amp_data_of step = push_bit 15 1 OR push_bit 13 1 OR push_bit 12 1 OR ucast step"

definition setup_by_type ::
  "codec \<Rightarrow> UhdaStream \<Rightarrow> UhdaWidget \<Rightarrow> setup_state \<Rightarrow> setup_state flow" where
  "setup_by_type cdc stream widget s =
     (if wtype widget = PIN_COMPLEX then
        and_then
          (if pin_caps widget AND push_bit 16 1 \<noteq> 0
           then return_on_failure cdc (set_eapd_enable (nid widget) (push_bit 1 1)) s
           else Continue s)
          (\<lambda>s.
            let step = (ucast (out_amp_caps widget AND 0x7F) :: 8 word);
                amp_data = amp_data_of step
            in and_then (return_on_failure cdc (set_amp_gain_mute (nid widget) amp_data) s)
                 (\<lambda>s.
                   let pin_control = push_bit 7 1 OR push_bit 6 1
                   in return_on_failure cdc (set_pin_control (nid widget) pin_control) s))
      else if wtype widget = AUDIO_MIXER then
        (let step = (ucast (out_amp_caps widget AND 0x7F) :: 8 word);
             amp_data = amp_data_of step
         in return_on_success cdc (set_amp_gain_mute (nid widget) amp_data) s)
      else if wtype widget = AUDIO_OUT then
        and_then
          (return_on_failure cdc (set_converter_control (nid widget) (index stream + 1) 0) s)
          (\<lambda>s.
            let step = (ucast (out_amp_caps widget AND 0x7F) :: 8 word);
                amp_data = amp_data_of (step div 2);
                s' = (fst s, (snd s)\<lparr>gain := ucast (step div 2)\<rparr>)
            in return_on_success cdc (set_amp_gain_mute (nid widget) amp_data) s')
      else Continue s)"

text \<open>The body of the loop over the widgets, lines 262 to 349.\<close>

definition setup_widget ::
  "codec \<Rightarrow> widget_store \<Rightarrow> UhdaStream \<Rightarrow> nat \<Rightarrow> setup_state \<Rightarrow> setup_state flow" where
  "setup_widget cdc store stream i s =
     (let widget = store (widgets (snd s) ! i) in
      and_then (setup_select_connection cdc store i s)
        (\<lambda>s. and_then (return_on_failure cdc (set_power_state (nid widget) 0) s)
          (\<lambda>s. setup_by_type cdc stream widget s)))"

text \<open>The loop itself, and \<open>return UHDA_STATUS_SUCCESS\<close> after it.\<close>

function setup_loop ::
  "codec \<Rightarrow> widget_store \<Rightarrow> UhdaStream \<Rightarrow> nat \<Rightarrow> nat \<Rightarrow> setup_state \<Rightarrow> setup_state flow" where
  "setup_loop cdc store stream n i s =
     (if i < n then
        (case setup_widget cdc store stream i s of
           Return st s' \<Rightarrow> Return st s'
         | Fault \<Rightarrow> Fault
         | Continue s' \<Rightarrow> setup_loop cdc store stream n (i + 1) s')
      else Return UHDA_STATUS_SUCCESS s)"
  by pat_completeness auto
termination
  by (relation "measure (\<lambda>(cdc, store, stream, n, i, s). n - i)") auto

declare setup_loop.simps [simp del]

text \<open>\<open>uhda_path_setup\<close>. \<open>fmt\<close> is the value \<open>pcm_format_from_params\<close> returns and
  \<open>CHAN\<close> the field \<open>pcm_format::CHAN\<close>; both come from a header that is not among the
  sources. An empty path has no last widget: the model then answers \<open>Fault\<close>.\<close>

definition uhda_path_setup ::
  "BitField \<Rightarrow> codec \<Rightarrow> widget_store \<Rightarrow> UhdaPath \<Rightarrow> 16 word \<Rightarrow> UhdaStream \<Rightarrow> setup_state flow" where
  "uhda_path_setup CHAN cdc store path fmt stream =
     (if \<not> output_flag stream then Return UHDA_STATUS_UNSUPPORTED ([], path)
      else if widgets path = [] then Fault
      else
        let output = store (last (widgets path)) in
        if wtype output \<noteq> AUDIO_OUT then Return UHDA_STATUS_UNSUPPORTED ([], path)
        else
          and_then (return_on_failure cdc (set_converter_format (nid output) fmt) ([], path))
            (\<lambda>s. and_then
                   (return_on_failure cdc
                      (set_converter_channel_count (nid output) (field_get fmt CHAN)) s)
                   (\<lambda>s. setup_loop cdc store stream (length (widgets path)) 0 s)))"

section \<open>Controller: ring sizes, codec enumeration and verb waits\<close>

text \<open>Lines 304 to 324 of \<open>resume\<close>: the CORB size. \<open>SZCAP\<close> and \<open>SIZE\<close> are the fields
  \<open>corbsize::SZCAP\<close> and \<open>corbsize::SIZE\<close>. The result is the entry count stored in
  \<open>corb_size\<close> and the value stored to the size register, if one is stored.\<close>

definition resume_corb_size :: "BitField \<Rightarrow> BitField \<Rightarrow> 8 word \<Rightarrow> nat \<times> 8 word option" where
  "resume_corb_size SZCAP SIZE corb_size_reg =
     (let corb_cap = field_get corb_size_reg SZCAP;
          (chosen_corb_size, corb_size) =
             (if corb_cap AND 0b100 \<noteq> 0 then (0b10 :: 8 word, 256 :: nat)
              else if corb_cap AND 0b10 \<noteq> 0 then (0b01, 16)
              else (0, 2))
      in (corb_size,
          if corb_cap \<noteq> push_bit 1 chosen_corb_size
          then Some (field_clear corb_size_reg SIZE OR field_val SIZE chosen_corb_size)
          else None))"

text \<open>Lines 326 to 346: the same for the RIRB, with \<open>rirbsize::SZCAP\<close> and
  \<open>rirbsize::SIZE\<close>.\<close>

definition resume_rirb_size :: "BitField \<Rightarrow> BitField \<Rightarrow> 8 word \<Rightarrow> nat \<times> 8 word option" where
  "resume_rirb_size SZCAP SIZE rirb_size_reg =
     (let rirb_cap = field_get rirb_size_reg SZCAP;
          (chosen_rirb_size, rirb_size) =
             (if rirb_cap AND 0b100 \<noteq> 0 then (0b10 :: 8 word, 256 :: nat)
              else if rirb_cap AND 0b10 \<noteq> 0 then (0b01, 16)
              else (0, 2))
      in (rirb_size,
          if rirb_cap \<noteq> push_bit 1 chosen_rirb_size
          then Some (field_clear rirb_size_reg SIZE OR field_val SIZE chosen_rirb_size)
          else None))"

text \<open>The reading of the capability field and of the size code that both blocks use:
  bit 2 of the capability stands for 256 entries, bit 1 for 16 and bit 0 for 2; the size
  code written to the size field is 2 for 256 entries, 1 for 16 and 0 for 2.\<close>

definition cap_bit :: "nat \<Rightarrow> 8 word" where
  "cap_bit n = (if n = 256 then 4 else if n = 16 then 2 else 1)"

definition cap_supports :: "8 word \<Rightarrow> nat \<Rightarrow> bool" where
  "cap_supports cap n \<longleftrightarrow> n \<in> {2, 16, 256} \<and> cap AND cap_bit n \<noteq> 0"

definition size_code :: "nat \<Rightarrow> 8 word" where
  "size_code n = (if n = 256 then 2 else if n = 16 then 1 else 0)"

text \<open>Lines 393 to 418 of \<open>resume\<close>: the codec enumeration. What the loop cannot decide
  itself is a parameter: whether \<open>uhda_kernel_malloc\<close> gives memory for codec \<open>i\<close>, what
  the codec's \<open>init\<close> returns, and whether \<open>codecs.push\<close> finds room. The state is the
  list of codecs kept in \<open>codecs\<close> and the list of codecs destroyed and freed.\<close>

record enum_env =
  malloc_ok :: "nat \<Rightarrow> bool"
  codec_init :: "nat \<Rightarrow> UhdaStatus"
  push_ok :: "nat \<Rightarrow> bool"

record enum_state =
  codecs :: "nat list"
  freed :: "nat list"

function resume_enumerate :: "enum_env \<Rightarrow> 16 word \<Rightarrow> nat \<Rightarrow> enum_state \<Rightarrow> UhdaStatus \<times> enum_state" where
  "resume_enumerate env statests i s =
     (if i < 15 then
        (if statests AND push_bit i 1 \<noteq> 0 then
           (if \<not> malloc_ok env i then (UHDA_STATUS_NO_MEMORY, s)
            else
              let status = codec_init env i in
              if status = UHDA_STATUS_TIMEOUT
              then resume_enumerate env statests (i + 1) (s\<lparr>freed := freed s @ [i]\<rparr>)
              else if status \<noteq> UHDA_STATUS_SUCCESS
              then (status, s\<lparr>freed := freed s @ [i]\<rparr>)
              else if \<not> push_ok env i then (UHDA_STATUS_NO_MEMORY, s)
              else resume_enumerate env statests (i + 1) (s\<lparr>codecs := codecs s @ [i]\<rparr>))
         else resume_enumerate env statests (i + 1) s)
      else (UHDA_STATUS_SUCCESS, s))"
  by pat_completeness auto
termination
  by (relation "measure (\<lambda>(env, statests, i, s). 15 - i)") auto

declare resume_enumerate.simps [simp del]

text \<open>What the enumeration does not stop at: a codec whose memory was allocated and whose
  \<open>init\<close> either timed out or succeeded with room left in \<open>codecs\<close>.\<close>

definition tolerated :: "enum_env \<Rightarrow> nat \<Rightarrow> bool" where
  "tolerated env i \<longleftrightarrow>
     malloc_ok env i \<and>
     (codec_init env i = UHDA_STATUS_TIMEOUT
      \<or> codec_init env i = UHDA_STATUS_SUCCESS \<and> push_ok env i)"

text \<open>The hardware seen from a wait loop: the value each successive load of a register
  returns, numbered from 0. A wait ends with the number of loads it made and the sum of the
  microseconds it passed to \<open>uhda_kernel_delay\<close>.\<close>

record wait_cost =
  loads :: nat
  delayed_us :: nat

text \<open>A loop of \<open>wait_for_verb\<close>, lines 458 to 466 and 468 to 476: the counter starts at 0
  and goes up by one, so it equals \<open>5 * 2000\<close> exactly when it has reached it. The result
  says whether the loop left through \<open>break\<close>. The body calls no delay.\<close>

function verb_wait_loop :: "(nat \<Rightarrow> 16 word) \<Rightarrow> BitField \<Rightarrow> 8 word \<Rightarrow> nat \<Rightarrow> wait_cost \<Rightarrow> bool \<times> wait_cost" where
  "verb_wait_loop reads WP idx i c =
     (if i \<ge> 5 * 2000 then (False, c)
      else if ucast (field_get (reads i) WP) = idx then (True, c\<lparr>loads := loads c + 1\<rparr>)
      else verb_wait_loop reads WP idx (i + 1) (c\<lparr>loads := loads c + 1\<rparr>))"
  by pat_completeness auto
termination
  by (relation "measure (\<lambda>(reads, WP, idx, i, c). 5 * 2000 - i)") auto

declare verb_wait_loop.simps [simp del]

text \<open>\<open>wait_for_verb\<close>: \<open>corbwp\<close> and \<open>rirbwp\<close> are the successive loads of the two
  write-pointer registers, \<open>CORB_WP\<close> and \<open>RIRB_WP\<close> the fields \<open>corbwp::WP\<close> and
  \<open>rirbwp::WP\<close>, \<open>rirb\<close> the response ring. The response is returned with the status
  \<open>UHDA_STATUS_SUCCESS\<close> only.\<close>

definition wait_for_verb ::
  "(nat \<Rightarrow> 16 word) \<Rightarrow> (nat \<Rightarrow> 16 word) \<Rightarrow> BitField \<Rightarrow> BitField \<Rightarrow> (8 word \<Rightarrow> 'r) \<Rightarrow> 8 word
     \<Rightarrow> UhdaStatus \<times> 'r option \<times> wait_cost" where
  "wait_for_verb corbwp rirbwp CORB_WP RIRB_WP rirb idx =
     (case verb_wait_loop corbwp CORB_WP idx 0 \<lparr>loads = 0, delayed_us = 0\<rparr> of
        (False, c) \<Rightarrow> (UHDA_STATUS_TIMEOUT, None, c)
      | (True, c) \<Rightarrow>
          (case verb_wait_loop rirbwp RIRB_WP idx 0 c of
             (False, c') \<Rightarrow> (UHDA_STATUS_TIMEOUT, None, c')
           | (True, c') \<Rightarrow> (UHDA_STATUS_SUCCESS, Some (rirb idx), c')))"

text \<open>The wait loop of \<open>resume\<close>, lines 285 to 295, for the controller to leave reset, and
  that of \<open>suspend\<close>, lines 250 to 260, for it to enter reset: the same counter, and
  \<open>uhda_kernel_delay(200)\<close> after every load that does not end the loop. \<open>leave\<close> is the
  test that ends it.\<close>

function reset_wait_loop :: "(nat \<Rightarrow> 32 word) \<Rightarrow> (32 word \<Rightarrow> bool) \<Rightarrow> nat \<Rightarrow> wait_cost \<Rightarrow> bool \<times> wait_cost" where
  "reset_wait_loop reads leave i c =
     (if i \<ge> 5 * 2000 then (False, c)
      else if leave (reads i) then (True, c\<lparr>loads := loads c + 1\<rparr>)
      else reset_wait_loop reads leave (i + 1)
             (c\<lparr>loads := loads c + 1, delayed_us := delayed_us c + 200\<rparr>))"
  by pat_completeness auto
termination
  by (relation "measure (\<lambda>(reads, leave, i, c). 5 * 2000 - i)") auto

declare reset_wait_loop.simps [simp del]

definition resume_wait_reset :: "(nat \<Rightarrow> 32 word) \<Rightarrow> BitField \<Rightarrow> bool \<times> wait_cost" where
  "resume_wait_reset gctl CRST =
     reset_wait_loop gctl (\<lambda>v. field_get v CRST \<noteq> 0) 0 \<lparr>loads = 0, delayed_us = 0\<rparr>"

definition suspend_wait_reset :: "(nat \<Rightarrow> 32 word) \<Rightarrow> BitField \<Rightarrow> bool \<times> wait_cost" where
  "suspend_wait_reset gctl CRST =
     reset_wait_loop gctl (\<lambda>v. \<not> field_get v CRST \<noteq> 0) 0 \<lparr>loads = 0, delayed_us = 0\<rparr>"

section \<open>Concrete inputs\<close>

text \<open>The field positions of the HD Audio register layout, used as concrete values of
  the field parameters: the stream run bit is bit 1 of the stream control register; in a
  ring size register the size is in bits 1:0 and the size capability in bits 7:4; a ring
  write pointer is in bits 7:0; the controller reset bit is bit 0 of the global control
  register.\<close>

definition hda_RUN :: BitField where
  "hda_RUN = \<lparr>bf_offset = 1, bf_bits = 1\<rparr>"

definition hda_SIZE :: BitField where
  "hda_SIZE = \<lparr>bf_offset = 0, bf_bits = 2\<rparr>"

definition hda_SZCAP :: BitField where
  "hda_SZCAP = \<lparr>bf_offset = 4, bf_bits = 4\<rparr>"

definition hda_WP :: BitField where
  "hda_WP = \<lparr>bf_offset = 0, bf_bits = 8\<rparr>"

definition hda_CRST :: BitField where
  "hda_CRST = \<lparr>bf_offset = 0, bf_bits = 1\<rparr>"

text \<open>An output stream that has been set up and is not running: four empty hardware
  pages, a ring buffer of 32 KiB whose first 16 KiB hold the byte 7.\<close>

definition fresh_stream :: UhdaStream where
  "fresh_stream =
     \<lparr>output_flag = True, index = 0, sd_CTL0 = 0, sd_FMT = 0,
      buffer_pages = replicate 4 (replicate 4096 0),
      ring_buffer = replicate 16384 7 @ replicate 16384 9,
      ring_buffer_size = 0x8000, ring_buffer_read_pos = 0, current_pos = 0\<rparr>"

text \<open>An input stream, and stand-ins for the two stream methods.\<close>

definition input_stream :: UhdaStream where
  "input_stream = fresh_stream\<lparr>output_flag := False\<rparr>"

definition setup_stub :: "UhdaStream \<Rightarrow> 32 word \<Rightarrow> UhdaStatus \<times> UhdaStream" where
  "setup_stub stream n = (UHDA_STATUS_SUCCESS, stream\<lparr>ring_buffer_size := n\<rparr>)"

definition queue_data_stub :: "UhdaStream \<Rightarrow> 8 word list \<Rightarrow> 32 word \<Rightarrow> UhdaStream \<times> 32 word" where
  "queue_data_stub stream data n = (stream, n)"

text \<open>A codec with a pin complex (node 0x14, with an external amplifier), a mixer (node
  0x0C) and an audio output converter (node 0x02) whose amplifier has 0x42 = 66 steps, at the
  addresses 1, 2 and 3; every other address holds a widget of another type. The path goes
  from the pin through the mixer to the converter.\<close>

definition pin_widget :: UhdaWidget where
  "pin_widget = \<lparr>wtype = PIN_COMPLEX, nid = 0x14, connections = [0x0C, 0x0D],
                  pin_caps = 0x0001003C, out_amp_caps = 0x80000000\<rparr>"

definition mixer_widget :: UhdaWidget where
  "mixer_widget = \<lparr>wtype = AUDIO_MIXER, nid = 0x0C, connections = [0x02, 0x0B],
                    pin_caps = 0, out_amp_caps = 0x1F\<rparr>"

definition dac_widget :: UhdaWidget where
  "dac_widget = \<lparr>wtype = AUDIO_OUT, nid = 0x02, connections = [],
                  pin_caps = 0, out_amp_caps = 0x80034242\<rparr>"

definition other_widget :: UhdaWidget where
  "other_widget = \<lparr>wtype = OTHER_TYPE, nid = 0x20, connections = [],
                    pin_caps = 0, out_amp_caps = 0\<rparr>"

definition example_store :: widget_store where
  "example_store p =
     (if p = 1 then pin_widget else if p = 2 then mixer_widget
      else if p = 3 then dac_widget else other_widget)"

definition example_path :: UhdaPath where
  "example_path = \<lparr>widgets = [1, 2, 3], gain = 0\<rparr>"

text \<open>A codec that answers every verb with success, and one that times out on the
  amplifier verb of the mixer and of the converter only.\<close>

definition ok_codec :: codec where
  "ok_codec v = UHDA_STATUS_SUCCESS"

definition amp_failing_codec :: codec where
  "amp_failing_codec v =
     (case v of
        set_amp_gain_mute n d \<Rightarrow>
          if n = 0x0C \<or> n = 0x02 then UHDA_STATUS_TIMEOUT else UHDA_STATUS_SUCCESS
      | _ \<Rightarrow> UHDA_STATUS_SUCCESS)"

text \<open>The format field of the channel count, bits 3:0 of the stream format word.\<close>

definition hda_CHAN :: BitField where
  "hda_CHAN = \<lparr>bf_offset = 0, bf_bits = 4\<rparr>"

text \<open>Two paths from the same pin to two converters, and a path from another pin.\<close>

definition path_pin1_a :: UhdaPath where
  "path_pin1_a = \<lparr>widgets = [1, 2], gain = 0\<rparr>"

definition path_pin1_b :: UhdaPath where
  "path_pin1_b = \<lparr>widgets = [1, 3], gain = 0\<rparr>"

definition path_pin9 :: UhdaPath where
  "path_pin9 = \<lparr>widgets = [9, 3], gain = 0\<rparr>"

text \<open>Two paths from two pins that meet in widget 2 and go on to widget 3 together.\<close>

definition path_merge_a :: UhdaPath where
  "path_merge_a = \<lparr>widgets = [1, 2, 3], gain = 0\<rparr>"

definition path_merge_b :: UhdaPath where
  "path_merge_b = \<lparr>widgets = [4, 2, 3], gain = 0\<rparr>"

text \<open>Three codecs answer on the link, at the addresses 0, 1 and 2. In the first
  environment codec 1 times out in \<open>init\<close> and the others succeed; in the second codec 2
  answers \<open>UHDA_STATUS_UNSUPPORTED\<close> as well; in the third there is no memory for
  codec 2.\<close>

definition env_timeout :: enum_env where
  "env_timeout =
     \<lparr>malloc_ok = (\<lambda>i. True),
      codec_init = (\<lambda>i. if i = 1 then UHDA_STATUS_TIMEOUT else UHDA_STATUS_SUCCESS),
      push_ok = (\<lambda>i. True)\<rparr>"

definition env_unsupported :: enum_env where
  "env_unsupported =
     \<lparr>malloc_ok = (\<lambda>i. True),
      codec_init = (\<lambda>i. if i = 1 then UHDA_STATUS_TIMEOUT
                        else if i = 2 then UHDA_STATUS_UNSUPPORTED else UHDA_STATUS_SUCCESS),
      push_ok = (\<lambda>i. True)\<rparr>"

definition env_no_memory :: enum_env where
  "env_no_memory =
     \<lparr>malloc_ok = (\<lambda>i. i \<noteq> 2),
      codec_init = (\<lambda>i. if i = 1 then UHDA_STATUS_TIMEOUT else UHDA_STATUS_SUCCESS),
      push_ok = (\<lambda>i. True)\<rparr>"

text \<open>Hardware whose ring write pointers stay at 0 and whose reset bit never changes,
  and a response ring whose slot \<open>i\<close> holds the number \<open>i\<close>.\<close>

definition stuck_at_zero :: "nat \<Rightarrow> 'a::len word" where
  "stuck_at_zero k = 0"

definition numbered_rirb :: "8 word \<Rightarrow> 64 word" where
  "numbered_rirb i = ucast i"

section \<open>Register fields\<close>

lemma field_get_clear: "field_get (field_clear v f) f = 0"
  unfolding field_get_def field_clear_def
  by (rule bit_eqI) (auto simp: bit_simps)

lemma field_clear_idle: "field_get v f = 0 \<Longrightarrow> field_clear v f = v"
  unfolding field_get_def field_clear_def
  by (rule bit_eqI) (auto simp: bit_simps bit_eq_iff)

lemma field_get_set1:
  assumes "field_in f LENGTH('a)"
  shows "field_get ((v::'a::len word) OR field_val f 1) f \<noteq> 0"
proof -
  have "bit (field_get (v OR field_val f 1) f) 0"
    using assms unfolding field_get_def field_val_def field_in_def
    by (auto simp: bit_simps)
  then show ?thesis by auto
qed

section \<open>Stream playback\<close>

lemma play_copy_4:
  "play_copy 0 (0x1000 * 4) rb [p0, p1, p2, p3] =
     [memcpy_from p0 rb 0 0x1000, memcpy_from p1 rb 0x1000 0x1000,
      memcpy_from p2 rb 0x2000 0x1000, memcpy_from p3 rb 0x3000 0x1000]"
  by (simp add: play_copy.simps[of 0] play_copy.simps[of 4096] play_copy.simps[of 8192] play_copy.simps[of 12288] play_copy.simps[of 16384])

lemma list_of_four: "length xs = 4 \<Longrightarrow> \<exists>a b c d. xs = [a,b,c,d]"
  by (cases xs; simp; cases "tl xs"; simp; cases "tl (tl xs)"; simp; cases "tl (tl (tl xs))"; simp)

lemma pages_concat:
  assumes "length p0 = 4096" "length p1 = 4096" "length p2 = 4096" "length p3 = 4096" "16384 \<le> length rb"
  shows "concat [memcpy_from p0 rb 0 0x1000, memcpy_from p1 rb 0x1000 0x1000,
      memcpy_from p2 rb 0x2000 0x1000, memcpy_from p3 rb 0x3000 0x1000] = take 0x4000 rb"
proof -
  have "take (4096 + (4096 + (4096 + 4096))) rb = take 4096 rb @ take 4096 (drop 4096 rb) @ take 4096 (drop 8192 rb) @ take 4096 (drop 12288 rb)"
    unfolding take_add by (simp add: )
  then show ?thesis using assms by (simp add: memcpy_from_def)
qed

lemma play_copy_pages:
  assumes "length pages = 4" "\<forall>p\<in>set pages. length p = 0x1000" "0x4000 \<le> length rb"
  shows "concat (play_copy 0 (0x1000 * 4) rb pages) = take 0x4000 rb"
proof -
  from assms(1) obtain a b c d where p: "pages = [a,b,c,d]" using list_of_four by blast
  show ?thesis using assms(2,3) unfolding p play_copy_4 by (intro pages_concat) auto
qed

lemma play_start:
  assumes "field_get (sd_CTL0 s) RUN = 0"
  shows "uhda_stream_play RUN s True =
     (UHDA_STATUS_SUCCESS,
      s\<lparr>buffer_pages := play_copy 0 (0x1000 * 4) (ring_buffer s) (buffer_pages s),
        ring_buffer_size := ring_buffer_size s - 0x4000,
        ring_buffer_read_pos := ring_buffer_read_pos s + 0x4000,
        current_pos := 0x4000,
        sd_CTL0 := sd_CTL0 s OR field_val RUN 1\<rparr>)"
  using assms by (simp add: uhda_stream_play_def Let_def)

lemma play_running:
  assumes "field_get (sd_CTL0 s) RUN \<noteq> 0"
  shows "uhda_stream_play RUN s True = (UHDA_STATUS_SUCCESS, s)"
  using assms by (simp add: uhda_stream_play_def Let_def)

lemma play_stop:
  "uhda_stream_play RUN s False = (UHDA_STATUS_SUCCESS, s\<lparr>sd_CTL0 := field_clear (sd_CTL0 s) RUN\<rparr>)"
  by (simp add: uhda_stream_play_def Let_def field_clear_idle)

text \<open>Claim C7. \<open>uhda_stream_play(stream, true)\<close> on a stream whose run bit is clear
  returns success, leaves in the four hardware pages exactly the first 16 KiB of the ring
  buffer, takes 16 KiB off \<open>ring_buffer_size\<close>, adds 16 KiB to the read offset, sets
  \<open>current_pos\<close> to 16 KiB and sets the run bit; a second call changes nothing. With the
  run bit set the call changes nothing. \<open>uhda_stream_play(stream, false)\<close> leaves the run
  field clear and changes no other member of the stream, and nothing at all when the run
  bit was clear.\<close>

theorem uhda_stream_play_moves_16k:
  assumes run: "field_in RUN 8"
    and pages: "length (buffer_pages s) = 4" "\<forall>p\<in>set (buffer_pages s). length p = 0x1000"
    and rb: "0x4000 \<le> length (ring_buffer s)"
    and s': "s' = snd (uhda_stream_play RUN s True)"
    and t: "t = snd (uhda_stream_play RUN s False)"
  shows "(field_get (sd_CTL0 s) RUN = 0 \<longrightarrow>
            fst (uhda_stream_play RUN s True) = UHDA_STATUS_SUCCESS
          \<and> concat (buffer_pages s') = take 0x4000 (ring_buffer s)
          \<and> ring_buffer s' = ring_buffer s
          \<and> ring_buffer_size s' = ring_buffer_size s - 0x4000
          \<and> (0x4000 \<le> ring_buffer_size s \<longrightarrow> unat (ring_buffer_size s') = unat (ring_buffer_size s) - 16384)
          \<and> ring_buffer_read_pos s' = ring_buffer_read_pos s + 0x4000
          \<and> current_pos s' = 0x4000
          \<and> field_get (sd_CTL0 s') RUN \<noteq> 0
          \<and> uhda_stream_play RUN s' True = (UHDA_STATUS_SUCCESS, s'))
       \<and> (field_get (sd_CTL0 s) RUN \<noteq> 0 \<longrightarrow> uhda_stream_play RUN s True = (UHDA_STATUS_SUCCESS, s))
       \<and> fst (uhda_stream_play RUN s False) = UHDA_STATUS_SUCCESS
       \<and> field_get (sd_CTL0 t) RUN = 0
       \<and> t = s\<lparr>sd_CTL0 := sd_CTL0 t\<rparr>
       \<and> (field_get (sd_CTL0 s) RUN = 0 \<longrightarrow> t = s)"
proof -
  have stop: "t = s\<lparr>sd_CTL0 := field_clear (sd_CTL0 s) RUN\<rparr>"
    by (simp add: t play_stop)
  have A: "field_get (sd_CTL0 s) RUN = 0 \<longrightarrow>
            fst (uhda_stream_play RUN s True) = UHDA_STATUS_SUCCESS
          \<and> concat (buffer_pages s') = take 0x4000 (ring_buffer s)
          \<and> ring_buffer s' = ring_buffer s
          \<and> ring_buffer_size s' = ring_buffer_size s - 0x4000
          \<and> (0x4000 \<le> ring_buffer_size s \<longrightarrow> unat (ring_buffer_size s') = unat (ring_buffer_size s) - 16384)
          \<and> ring_buffer_read_pos s' = ring_buffer_read_pos s + 0x4000
          \<and> current_pos s' = 0x4000
          \<and> field_get (sd_CTL0 s') RUN \<noteq> 0
          \<and> uhda_stream_play RUN s' True = (UHDA_STATUS_SUCCESS, s')"
  proof
    assume idle: "field_get (sd_CTL0 s) RUN = 0"
    note st = play_start [OF idle]
    have ctl: "sd_CTL0 s' = sd_CTL0 s OR field_val RUN 1" by (simp add: s' st)
    have running: "field_get (sd_CTL0 s') RUN \<noteq> 0"
      unfolding ctl using run by (intro field_get_set1) simp
    have sz: "0x4000 \<le> ring_buffer_size s \<longrightarrow> unat (ring_buffer_size s - 0x4000) = unat (ring_buffer_size s) - 16384"
      by (simp add: unat_sub)
    show "fst (uhda_stream_play RUN s True) = UHDA_STATUS_SUCCESS
          \<and> concat (buffer_pages s') = take 0x4000 (ring_buffer s)
          \<and> ring_buffer s' = ring_buffer s
          \<and> ring_buffer_size s' = ring_buffer_size s - 0x4000
          \<and> (0x4000 \<le> ring_buffer_size s \<longrightarrow> unat (ring_buffer_size s') = unat (ring_buffer_size s) - 16384)
          \<and> ring_buffer_read_pos s' = ring_buffer_read_pos s + 0x4000
          \<and> current_pos s' = 0x4000
          \<and> field_get (sd_CTL0 s') RUN \<noteq> 0
          \<and> uhda_stream_play RUN s' True = (UHDA_STATUS_SUCCESS, s')"
      using running play_running [OF running] sz play_copy_pages [OF pages rb]
      by (simp add: s' st)
  qed
  have B: "field_get (sd_CTL0 s) RUN \<noteq> 0 \<longrightarrow> uhda_stream_play RUN s True = (UHDA_STATUS_SUCCESS, s)"
    by (simp add: play_running)
  have C: "fst (uhda_stream_play RUN s False) = UHDA_STATUS_SUCCESS"
    by (simp add: play_stop)
  have D: "field_get (sd_CTL0 t) RUN = 0" "t = s\<lparr>sd_CTL0 := sd_CTL0 t\<rparr>"
    by (simp_all add: stop field_get_clear)
  have E: "field_get (sd_CTL0 s) RUN = 0 \<longrightarrow> t = s"
    by (simp add: stop field_clear_idle)
  from A B C D E show ?thesis by blast
qed

theorem uhda_stream_play_moves_16k_witness:
  "fst (uhda_stream_play hda_RUN fresh_stream True) = UHDA_STATUS_SUCCESS
   \<and> concat (buffer_pages (snd (uhda_stream_play hda_RUN fresh_stream True))) = replicate 16384 7
   \<and> ring_buffer_size (snd (uhda_stream_play hda_RUN fresh_stream True)) = 0x4000
   \<and> ring_buffer_read_pos (snd (uhda_stream_play hda_RUN fresh_stream True)) = 0x4000
   \<and> current_pos (snd (uhda_stream_play hda_RUN fresh_stream True)) = 0x4000
   \<and> sd_CTL0 (snd (uhda_stream_play hda_RUN fresh_stream True)) = 2
   \<and> uhda_stream_play hda_RUN (snd (uhda_stream_play hda_RUN fresh_stream True)) True
       = (UHDA_STATUS_SUCCESS, snd (uhda_stream_play hda_RUN fresh_stream True))
   \<and> snd (uhda_stream_play hda_RUN fresh_stream False) = fresh_stream"
proof -
  have run: "field_in hda_RUN 8" by (simp add: field_in_def hda_RUN_def)
  have pages: "length (buffer_pages fresh_stream) = 4"
    "\<forall>p\<in>set (buffer_pages fresh_stream). length p = 0x1000"
    by (simp_all add: fresh_stream_def)
  have rb: "0x4000 \<le> length (ring_buffer fresh_stream)" by (simp add: fresh_stream_def)
  have idle: "field_get (sd_CTL0 fresh_stream) hda_RUN = 0"
    by (simp add: fresh_stream_def field_get_def hda_RUN_def)
  have ctl: "sd_CTL0 (snd (uhda_stream_play hda_RUN fresh_stream True)) = 2"
    by (simp add: uhda_stream_play_def fresh_stream_def field_get_def field_val_def Let_def hda_RUN_def)
  have sz: "ring_buffer_size fresh_stream - 0x4000 = 0x4000"
    "ring_buffer_read_pos fresh_stream + 0x4000 = 0x4000"
    by (simp_all add: fresh_stream_def)
  have tk: "take 0x4000 (ring_buffer fresh_stream) = replicate 16384 7"
    by (simp add: fresh_stream_def)
  from uhda_stream_play_moves_16k [OF run pages rb refl refl] idle ctl sz tk
  show ?thesis by simp
qed

text \<open>Claim C10. \<open>uhda_stream_play\<close> returns success for every stream and both values of
  the flag, whatever the stream's direction; \<open>uhda_stream_setup\<close> and
  \<open>uhda_stream_queue_data\<close> return \<open>UHDA_STATUS_UNSUPPORTED\<close> for a stream that is not
  an output stream and leave it as it was.\<close>

theorem uhda_stream_play_ignores_direction:
  "fst (uhda_stream_play RUN stream play) = UHDA_STATUS_SUCCESS
   \<and> (\<not> output_flag stream \<longrightarrow>
        uhda_stream_setup setup stream fmt n = (UHDA_STATUS_UNSUPPORTED, stream)
      \<and> uhda_stream_queue_data queue_data stream data sz = (UHDA_STATUS_UNSUPPORTED, stream, sz))"
  by (simp add: uhda_stream_play_def uhda_stream_setup_def uhda_stream_queue_data_def Let_def)

theorem uhda_stream_play_ignores_direction_witness:
  "\<not> output_flag input_stream
   \<and> fst (uhda_stream_play hda_RUN input_stream True) = UHDA_STATUS_SUCCESS
   \<and> fst (uhda_stream_play hda_RUN input_stream False) = UHDA_STATUS_SUCCESS
   \<and> sd_CTL0 (snd (uhda_stream_play hda_RUN input_stream True)) = 2
   \<and> uhda_stream_setup setup_stub input_stream 0x11 0x8000 = (UHDA_STATUS_UNSUPPORTED, input_stream)
   \<and> uhda_stream_queue_data queue_data_stub input_stream [1, 2] 2
       = (UHDA_STATUS_UNSUPPORTED, input_stream, 2)"
proof -
  have dir: "\<not> output_flag input_stream"
    by (simp add: input_stream_def)
  have ctl: "sd_CTL0 (snd (uhda_stream_play hda_RUN input_stream True)) = 2"
    by (simp add: uhda_stream_play_def input_stream_def fresh_stream_def field_get_def
        field_val_def Let_def hda_RUN_def)
  from dir ctl
    uhda_stream_play_ignores_direction [of hda_RUN input_stream True setup_stub "0x11" "0x8000" queue_data_stub "[1, 2]" 2]
    uhda_stream_play_ignores_direction [of hda_RUN input_stream False setup_stub "0x11" "0x8000" queue_data_stub "[1, 2]" 2]
  show ?thesis by simp
qed

section \<open>Paths usable together\<close>

text \<open>For two paths the four loops test every pair of steps once in each direction, and
  the two directions ask the same question.\<close>

lemma usable_two:
  "uhda_paths_usable_simultaneously [p, q] ss \<longleftrightarrow>
     (\<forall>a\<in>{1..<length (widgets p)}. \<forall>b\<in>{1..<length (widgets q)}.
        if widgets p ! (a - 1) = widgets q ! (b - 1) then ss
        else widgets p ! a \<noteq> widgets q ! b)"
  unfolding uhda_paths_usable_simultaneously_def
  apply (simp add: list_all_iff Let_def ball_Un)
  apply (rule iffI)
   apply blast
  apply (intro conjI)
   apply blast
  apply (intro ballI conjI impI)
   apply (drule_tac x=other_widget_i in bspec, assumption)
   apply (drule_tac x=widget_i in bspec, assumption)
   apply metis
  apply (drule_tac x=other_widget_i in bspec, assumption)
  apply (drule_tac x=widget_i in bspec, assumption)
  apply metis
  done

text \<open>Claim C4, as the code has it. The widget at index 0 is never the current widget of
  a step, but it is the predecessor of the step at index 1, and predecessors are compared.
  So: two paths with no widget in common are usable together for both values of
  \<open>same_stream\<close>; two paths that hold the same widget after index 0 with different
  predecessors are never usable together; two paths with a step from the same predecessor,
  and no widget held with different predecessors, are usable together exactly when
  \<open>same_stream\<close> is true; and two paths of at least two widgets that start at the same
  pin are not usable together when \<open>same_stream\<close> is false.\<close>

theorem paths_usable_pairwise:
  fixes p q :: UhdaPath
  defines "P \<equiv> widgets p" and "Q \<equiv> widgets q"
  defines "same_pred \<equiv> \<exists>a b. 1 \<le> a \<and> a < length P \<and> 1 \<le> b \<and> b < length Q
                          \<and> P ! (a - 1) = Q ! (b - 1)"
  defines "fan_out \<equiv> \<exists>a b. 1 \<le> a \<and> a < length P \<and> 1 \<le> b \<and> b < length Q
                          \<and> P ! a = Q ! b \<and> P ! (a - 1) \<noteq> Q ! (b - 1)"
  shows "(set P \<inter> set Q = {} \<longrightarrow> uhda_paths_usable_simultaneously [p, q] same_stream)
       \<and> (fan_out \<longrightarrow> \<not> uhda_paths_usable_simultaneously [p, q] same_stream)
       \<and> (same_pred \<and> \<not> fan_out \<longrightarrow>
            uhda_paths_usable_simultaneously [p, q] same_stream = same_stream)
       \<and> (1 < length P \<and> 1 < length Q \<and> P ! 0 = Q ! 0 \<and> \<not> same_stream \<longrightarrow>
            \<not> uhda_paths_usable_simultaneously [p, q] same_stream)"
proof (intro conjI impI)
  assume d: "set P \<inter> set Q = {}"
  have "\<And>a b. a < length P \<Longrightarrow> b < length Q \<Longrightarrow> P ! a \<noteq> Q ! b"
    using d nth_mem by (metis disjoint_iff)
  then show "uhda_paths_usable_simultaneously [p, q] same_stream"
    unfolding usable_two P_def Q_def by (auto simp: less_imp_diff_less)
next
  assume fan_out
  then show "\<not> uhda_paths_usable_simultaneously [p, q] same_stream"
    unfolding usable_two fan_out_def P_def Q_def by force
next
  assume "same_pred \<and> \<not> fan_out"
  then show "uhda_paths_usable_simultaneously [p, q] same_stream = same_stream"
    unfolding usable_two fan_out_def same_pred_def P_def Q_def
    by (smt (verit) atLeastLessThan_iff)
next
  assume "1 < length P \<and> 1 < length Q \<and> P ! 0 = Q ! 0 \<and> \<not> same_stream"
  then show "\<not> uhda_paths_usable_simultaneously [p, q] same_stream"
    unfolding usable_two P_def Q_def
    by (auto intro!: bexI[of _ 1])
qed

theorem paths_usable_pairwise_witness:
  "uhda_paths_usable_simultaneously [path_pin1_a, path_pin9] True
   \<and> uhda_paths_usable_simultaneously [path_pin1_a, path_pin9] False
   \<and> \<not> uhda_paths_usable_simultaneously [path_pin1_b, path_pin9] True
   \<and> \<not> uhda_paths_usable_simultaneously [path_pin1_b, path_pin9] False
   \<and> uhda_paths_usable_simultaneously [path_pin1_a, path_pin1_b] True
   \<and> \<not> uhda_paths_usable_simultaneously [path_pin1_a, path_pin1_b] False"
proof -
  have disjoint: "set (widgets path_pin1_a) \<inter> set (widgets path_pin9) = {}"
    by (simp add: path_pin1_a_def path_pin9_def)
  have fan: "\<exists>a b. 1 \<le> a \<and> a < length (widgets path_pin1_b) \<and> 1 \<le> b
               \<and> b < length (widgets path_pin9)
               \<and> widgets path_pin1_b ! a = widgets path_pin9 ! b
               \<and> widgets path_pin1_b ! (a - 1) \<noteq> widgets path_pin9 ! (b - 1)"
    by (intro exI [of _ 1]) (simp add: path_pin1_b_def path_pin9_def)
  have same: "\<exists>a b. 1 \<le> a \<and> a < length (widgets path_pin1_a) \<and> 1 \<le> b
               \<and> b < length (widgets path_pin1_b)
               \<and> widgets path_pin1_a ! (a - 1) = widgets path_pin1_b ! (b - 1)"
    by (intro exI [of _ 1]) (simp add: path_pin1_a_def path_pin1_b_def)
  have no_fan: "\<not> (\<exists>a b. 1 \<le> a \<and> a < length (widgets path_pin1_a) \<and> 1 \<le> b
               \<and> b < length (widgets path_pin1_b)
               \<and> widgets path_pin1_a ! a = widgets path_pin1_b ! b
               \<and> widgets path_pin1_a ! (a - 1) \<noteq> widgets path_pin1_b ! (b - 1))"
    by (auto simp: path_pin1_a_def path_pin1_b_def less_Suc_eq)
  have pin: "1 < length (widgets path_pin1_a) \<and> 1 < length (widgets path_pin1_b)
               \<and> widgets path_pin1_a ! 0 = widgets path_pin1_b ! 0"
    by (simp add: path_pin1_a_def path_pin1_b_def)
  have w1: "uhda_paths_usable_simultaneously [path_pin1_a, path_pin9] True"
    by (rule paths_usable_pairwise [THEN conjunct1, THEN mp, OF disjoint])
  have w2: "uhda_paths_usable_simultaneously [path_pin1_a, path_pin9] False"
    by (rule paths_usable_pairwise [THEN conjunct1, THEN mp, OF disjoint])
  have w3: "\<not> uhda_paths_usable_simultaneously [path_pin1_b, path_pin9] True"
    by (rule paths_usable_pairwise [THEN conjunct2, THEN conjunct1, THEN mp, OF fan])
  have w4: "\<not> uhda_paths_usable_simultaneously [path_pin1_b, path_pin9] False"
    by (rule paths_usable_pairwise [THEN conjunct2, THEN conjunct1, THEN mp, OF fan])
  have w5: "uhda_paths_usable_simultaneously [path_pin1_a, path_pin1_b] True"
    using paths_usable_pairwise [of path_pin1_a path_pin1_b True, THEN conjunct2, THEN conjunct2,
        THEN conjunct1, THEN mp, OF conjI [OF same no_fan]]
    by simp
  have w6: "\<not> uhda_paths_usable_simultaneously [path_pin1_a, path_pin1_b] False"
    using paths_usable_pairwise [of path_pin1_a path_pin1_b False, THEN conjunct2, THEN conjunct2,
        THEN conjunct2, THEN mp] pin
    by simp
  from w1 w2 w3 w4 w5 w6 show ?thesis by simp
qed

text \<open>Against claim C4 as it is written: two paths that share nothing but the pin they
  start at are not usable together when \<open>same_stream\<close> is false, and the answer changes
  with the widget at index 0 alone; and two paths that reach the shared widget 3 from the
  same predecessor 2 are not usable together even when \<open>same_stream\<close> is true, because
  they reach widget 2 from different pins.\<close>

theorem paths_same_pin_counterexample:
  "set (tl (widgets path_pin1_a)) \<inter> set (tl (widgets path_pin1_b)) = {}
   \<and> hd (widgets path_pin1_a) = hd (widgets path_pin1_b)
   \<and> \<not> uhda_paths_usable_simultaneously [path_pin1_a, path_pin1_b] False
   \<and> uhda_paths_usable_simultaneously [path_pin1_a, path_pin9] False
   \<and> tl (widgets path_pin9) = tl (widgets path_pin1_b)
   \<and> widgets path_merge_a ! 2 = widgets path_merge_b ! 2
   \<and> widgets path_merge_a ! 1 = widgets path_merge_b ! 1
   \<and> \<not> uhda_paths_usable_simultaneously [path_merge_a, path_merge_b] True"
  by (simp add: uhda_paths_usable_simultaneously_def path_pin1_a_def path_pin1_b_def
      path_pin9_def path_merge_a_def path_merge_b_def)

section \<open>Connection selector\<close>

text \<open>On a connection list without range entries the scan gives the position of the
  node id, as the specification says.\<close>

lemma flatten_plain:
  assumes "\<forall>c\<in>set conns. c AND 0x80 = 0"
  shows "flatten_connections prev conns = conns"
  using assms by (induction conns arbitrary: prev) auto

lemma scan_plain_from:
  assumes "\<forall>c\<in>set conns. c AND 0x80 = 0"
    and "position_of prev_nid (drop j conns) = Some k"
  shows "connection_scan conns prev_nid j idx = Selected (idx + of_nat k)"
  using assms
proof (induction conns prev_nid j idx arbitrary: k rule: connection_scan.induct)
  case (1 conns prev_nid j idx)
  have lt: "j < length conns" using "1.prems"(2) by (cases "j < length conns") auto
  have plain: "conns ! j AND push_bit 7 1 = 0" using "1.prems"(1) lt by simp
  have dr: "drop j conns = conns ! j # drop (j + 1) conns"
    using lt by (simp add: Cons_nth_drop_Suc)
  show ?case
  proof (cases "prev_nid = conns ! j")
    case True
    then have "k = 0" using "1.prems"(2) dr by simp
    then show ?thesis using True lt plain by (subst connection_scan.simps) (simp add: Let_def)
  next
    case False
    then obtain k' where k': "position_of prev_nid (drop (j + 1) conns) = Some k'" "k = Suc k'"
      using "1.prems"(2) dr by auto
    have "connection_scan conns prev_nid (j + 1) (idx + 1) = Selected (idx + 1 + of_nat k')"
      using "1.IH"(2) [OF lt refl _ False "1.prems"(1) k'(1)] plain by simp
    then show ?thesis using False lt plain k'(2)
      by (subst connection_scan.simps) (simp add: Let_def add.assoc)
  qed
qed

lemma scan_plain:
  assumes "\<forall>c\<in>set conns. c AND 0x80 = 0"
    and "position_of prev_nid (flatten_connections None conns) = Some k"
  shows "connection_scan conns prev_nid 0 0 = Selected (of_nat k)"
  using scan_plain_from [of conns prev_nid 0 k 0] assms by (simp add: flatten_plain)

text \<open>Claim C6, where the code leaves it. For the connection list 5, range up to 8, 10,
  which stands for the node ids 5, 6, 7, 8, 10, the scan gives the index 4 both for node 8
  and for node 10, whose positions are 3 and 4; in the list 5, range up to 8, it gives the
  index 2 for node 6, whose position is 1. A match inside a range adds the distance from
  the start bound to an index that already counts the start entry.\<close>

theorem connection_scan_off_by_one_in_range:
  "connection_scan [5, 0x88, 10] 8 0 0 = Selected 4
   \<and> connection_scan [5, 0x88, 10] 10 0 0 = Selected 4
   \<and> flatten_connections None [5, 0x88, 10] = [5, 6, 7, 8, 10]
   \<and> position_of 8 (flatten_connections None [5, 0x88, 10]) = Some 3
   \<and> position_of 10 (flatten_connections None [5, 0x88, 10]) = Some 4
   \<and> connection_scan [5, 0x88] 6 0 0 = Selected 2
   \<and> position_of 6 (flatten_connections None [5, 0x88]) = Some 1"
proof -
  have scan: "connection_scan [5, 0x88, 10] 8 0 0 = Selected 4"
    "connection_scan [5, 0x88, 10] 10 0 0 = Selected 4"
    "connection_scan [5, 0x88] 6 0 0 = Selected 2"
    by (simp_all add: connection_scan.simps)
  have flat: "flatten_connections None [5, 0x88, 10] = [5, 6, 7, 8, 10]"
    "flatten_connections None [5, 0x88] = [5, 6, 7, 8]"
    by (simp_all add: upt_rec)
  show ?thesis unfolding scan flat by simp
qed

section \<open>Path setup\<close>

lemmas setup_defs = uhda_path_setup_def setup_widget_def setup_by_type_def
  setup_select_connection_def return_on_failure_def return_on_success_def and_then_def
  amp_data_of_def Let_def field_get_def mask_eq_exp_minus_1

lemmas example_defs = example_store_def example_path_def pin_widget_def mixer_widget_def
  dac_widget_def fresh_stream_def hda_CHAN_def

lemma scan_example: "connection_scan [0x02, 0x0B] 0x14 0 0 = Selected 2"
  by (simp add: connection_scan.simps)

text \<open>Claim C2, where the code leaves it. On the path pin, mixer, converter with a codec
  that answers every verb with success, \<open>uhda_path_setup\<close> returns success right after
  the amplifier verb of the mixer: the converter gets no power-state verb, is not bound to
  the stream, and the cached gain of the path stays as it was. With a codec that times out
  on the amplifier verbs of the mixer and of the converter, the loop runs to its end and
  the function returns success all the same.\<close>

theorem path_setup_returns_at_mixer:
  "uhda_path_setup hda_CHAN ok_codec example_store example_path 0x4011 fresh_stream =
     Return UHDA_STATUS_SUCCESS
       ([set_converter_format 0x02 0x4011, set_converter_channel_count 0x02 1,
         set_power_state 0x14 0, set_eapd_enable 0x14 2, set_amp_gain_mute 0x14 0xB000,
         set_pin_control 0x14 0xC0,
         set_selected_connection 0x0C 2, set_power_state 0x0C 0, set_amp_gain_mute 0x0C 0xB01F],
        example_path)
   \<and> uhda_path_setup hda_CHAN amp_failing_codec example_store example_path 0x4011 fresh_stream =
     Return UHDA_STATUS_SUCCESS
       ([set_converter_format 0x02 0x4011, set_converter_channel_count 0x02 1,
         set_power_state 0x14 0, set_eapd_enable 0x14 2, set_amp_gain_mute 0x14 0xB000,
         set_pin_control 0x14 0xC0,
         set_selected_connection 0x0C 2, set_power_state 0x0C 0, set_amp_gain_mute 0x0C 0xB01F,
         set_power_state 0x02 0, set_converter_control 0x02 1 0, set_amp_gain_mute 0x02 0xB021],
        example_path\<lparr>gain := 33\<rparr>)
   \<and> amp_failing_codec (set_amp_gain_mute 0x0C 0xB01F) = UHDA_STATUS_TIMEOUT
   \<and> amp_failing_codec (set_amp_gain_mute 0x02 0xB021) = UHDA_STATUS_TIMEOUT"
proof -
  have ok: "uhda_path_setup hda_CHAN ok_codec example_store example_path 0x4011 fresh_stream =
     Return UHDA_STATUS_SUCCESS
       ([set_converter_format 0x02 0x4011, set_converter_channel_count 0x02 1,
         set_power_state 0x14 0, set_eapd_enable 0x14 2, set_amp_gain_mute 0x14 0xB000,
         set_pin_control 0x14 0xC0,
         set_selected_connection 0x0C 2, set_power_state 0x0C 0, set_amp_gain_mute 0x0C 0xB01F],
        example_path)"
    by (simp add: setup_defs example_defs ok_codec_def setup_loop.simps scan_example)
  have failing: "uhda_path_setup hda_CHAN amp_failing_codec example_store example_path 0x4011 fresh_stream =
     Return UHDA_STATUS_SUCCESS
       ([set_converter_format 0x02 0x4011, set_converter_channel_count 0x02 1,
         set_power_state 0x14 0, set_eapd_enable 0x14 2, set_amp_gain_mute 0x14 0xB000,
         set_pin_control 0x14 0xC0,
         set_selected_connection 0x0C 2, set_power_state 0x0C 0, set_amp_gain_mute 0x0C 0xB01F,
         set_power_state 0x02 0, set_converter_control 0x02 1 0, set_amp_gain_mute 0x02 0xB021],
        example_path\<lparr>gain := 33\<rparr>)"
    by (simp add: setup_defs example_defs amp_failing_codec_def setup_loop.simps scan_example)
  have timeouts: "amp_failing_codec (set_amp_gain_mute 0x0C 0xB01F) = UHDA_STATUS_TIMEOUT"
    "amp_failing_codec (set_amp_gain_mute 0x02 0xB021) = UHDA_STATUS_TIMEOUT"
    by (simp_all add: amp_failing_codec_def)
  from ok failing timeouts show ?thesis by blast
qed

section \<open>Volume\<close>

lemma one_percentage_is_1:
  fixes m :: "8 word"
  assumes "m \<le> 127"
  shows "(if m div 100 = 0 then 1 else m div 100) = 1"
proof -
  have "unat m \<le> 127" using assms by (simp add: word_le_nat_alt)
  then have "unat (m div 100) \<le> 1" by (simp add: unat_div)
  then have "m div 100 = 0 \<or> m div 100 = 1"
    by (metis le_neq_implies_less less_one unat_eq_zero unsigned_1 unsigned_word_eqI nat_less_le)
  then show ?thesis by auto
qed

lemma numeral_7F_mask: "(0x7F :: 'a::len word) = mask 7" by (simp add: mask_eq_exp_minus_1)

lemma max_value_back:
  fixes caps :: "32 word"
  shows "(ucast (ucast (caps AND 0x7F) :: 8 word) :: 32 word) = caps AND 0x7F"
  unfolding numeral_7F_mask
  by (rule bit_eqI) (auto simp: bit_simps)

lemma max_value_le:
  fixes caps :: "32 word"
  shows "(ucast (caps AND 0x7F) :: 8 word) \<le> 127"
proof -
  have "(ucast (caps AND 0x7F) :: 8 word) = ucast caps AND 0x7F"
    by (simp add: unsigned_and_eq)
  then show ?thesis by (simp add: word_and_le1)
qed

lemma negative_is_large:
  fixes v :: "32 word"
  assumes "v <s 0"
  shows "v > 127"
proof (rule ccontr)
  assume "\<not> 127 < v"
  then have "uint v < 2 ^ 7" by (simp add: word_less_def word_le_def not_less)
  then have "v AND mask 7 = v" by (simp add: mask_eq_iff)
  moreover have "\<not> bit (v AND mask 7) 31" by (simp add: bit_simps)
  moreover have "bit v 31" using assms bit_last_iff[of v] by (simp add: word_sless_alt)
  ultimately show False by simp
qed

lemma ucast_or4:
  fixes a b c m :: "32 word"
  shows "(ucast (a OR b OR c OR m) :: 16 word) = (ucast a OR ucast b OR ucast c) OR ucast m"
  by (simp add: unsigned_or_eq or.assoc)

lemma amp_word_ucast:
  fixes m :: "32 word"
  shows "(ucast (push_bit 15 1 OR push_bit 13 1 OR push_bit 12 1 OR m) :: 16 word) = 0xB000 OR ucast m"
proof -
  have "(ucast (push_bit 15 1 :: 32 word) OR ucast (push_bit 13 1 :: 32 word) OR ucast (push_bit 12 1 :: 32 word)) = (0xB000 :: 16 word)"
    by simp
  then show ?thesis unfolding ucast_or4 by simp
qed

lemma ucast_one: "(ucast (1 :: 8 word) :: 32 word) = 1" by simp

lemma negative_not_above_100:
  fixes v :: "32 word"
  assumes "v <s 0"
  shows "\<not> 100 <s v" "v \<noteq> 100"
  using assms by (auto simp: word_sless_alt)

text \<open>On the volumes from 0 upwards the function does what the specification says: the
  step is the volume capped at the maximum step, the maximum from 100 on, and it does not
  decrease when the volume grows.\<close>

lemma sint_nonneg_uint:
  fixes v :: "32 word"
  assumes "0 \<le> sint v"
  shows "uint v = sint v"
proof -
  have "sint v < 2 ^ 32" using sint_lt [of v] by simp
  then have "take_bit 32 (sint v) = sint v"
    using assms by (simp add: take_bit_int_eq_self)
  then show ?thesis using uint_sint [of v] by simp
qed

lemma nonneg_small:
  fixes v :: "32 word"
  assumes "0 \<le>s v" "\<not> 100 <s v"
  shows "v \<le> 100"
proof -
  have "0 \<le> sint v" "sint v \<le> 100" using assms by (simp_all add: word_sle_eq word_sless_alt not_less)
  then show ?thesis using sint_nonneg_uint [of v] by (simp add: word_le_def)
qed

lemma sint_100: "sint (v :: 32 word) = 100 \<Longrightarrow> v = 100"
  using signed_word_eqI [of v 100] by simp

lemma set_volume_nonneg:
  assumes pos: "0 \<le>s volume"
    and ne: "widgets path \<noteq> []"
    and out: "wtype (store (last (widgets path))) = AUDIO_OUT"
    and mx: "max_step = out_amp_caps (store (last (widgets path))) AND 0x7F"
    and st: "step = (if 100 \<le>s volume then max_step else min volume max_step)"
  shows "uhda_path_set_volume cdc store path volume =
           Some (cdc (set_amp_gain_mute (nid (store (last (widgets path)))) (0xB000 OR ucast step)),
                 path\<lparr>gain := step\<rparr>,
                 [set_amp_gain_mute (nid (store (last (widgets path)))) (0xB000 OR ucast step)])"
proof (cases "100 \<le>s volume")
  case True
  then have v: "(if 100 <s volume then 100 else volume) = 100"
    by (auto simp: word_sle_eq word_sless_alt intro: sint_100)
  show ?thesis
    unfolding uhda_path_set_volume_def Let_def v
    apply (simp only: one_percentage_is_1 [OF max_value_le] max_value_back)
    using ne out True
    apply (simp only: if_False if_True simp_thms ucast_one mult_1 amp_word_ucast st)
    apply (simp add: mx)
    done
next
  case False
  then have lt: "\<not> 100 <s volume" "volume \<noteq> 100"
    by (auto simp: word_sle_eq word_sless_alt)
  have m: "min volume max_step = (if max_step < volume then max_step else volume)"
    by (auto simp: min_def)
  show ?thesis
    unfolding uhda_path_set_volume_def Let_def
    apply (simp only: one_percentage_is_1 [OF max_value_le] max_value_back)
    using ne out False lt
    apply (simp only: if_False if_True simp_thms ucast_one mult_1 amp_word_ucast st m)
    apply (simp add: mx)
    done
qed

lemma set_volume_monotone_nonneg:
  assumes "0 \<le>s v1" "v1 \<le>s v2"
    and "uhda_path_set_volume cdc store path v1 = Some (st1, p1, l1)"
    and "uhda_path_set_volume cdc store path v2 = Some (st2, p2, l2)"
  shows "gain p1 \<le> gain p2"
proof (cases "widgets path \<noteq> [] \<and> wtype (store (last (widgets path))) = AUDIO_OUT")
  case False
  then show ?thesis using assms(3,4)
    by (auto simp: uhda_path_set_volume_def Let_def split: if_splits)
next
  case True
  define m where "m = out_amp_caps (store (last (widgets path))) AND 0x7F"
  have m100: "m \<le> 127" unfolding m_def by (rule word_and_le1)
  have p2: "0 \<le>s v2" using assms(1,2) by (simp add: word_sle_eq)
  have g1: "gain p1 = (if 100 \<le>s v1 then m else min v1 m)"
    using set_volume_nonneg [of v1 path store m _ cdc, OF assms(1) _ _ m_def refl] True assms(3) by auto
  have g2: "gain p2 = (if 100 \<le>s v2 then m else min v2 m)"
    using set_volume_nonneg [of v2 path store m _ cdc, OF p2 _ _ m_def refl] True assms(4) by auto
  show ?thesis
  proof (cases "100 \<le>s v2")
    case True
    then show ?thesis unfolding g1 g2 by simp
  next
    case False
    then have a: "\<not> 100 <s v2" "\<not> 100 \<le>s v1" "\<not> 100 <s v1" using assms(2) by (auto simp: word_sle_eq word_sless_alt)
    have "v1 \<le> v2"
      using assms(1) p2 assms(2)
      using sint_nonneg_uint [of v1] sint_nonneg_uint [of v2]
      by (simp add: word_sle_eq word_le_def)
    then show ?thesis unfolding g1 g2 using False a by (auto simp: min_def)
  qed
qed

text \<open>Claim C9. For every negative volume, on a path that ends in an audio output
  converter, \<open>uhda_path_set_volume\<close> caches the converter's maximum amplifier step in
  the path and sends it in the amplifier verb: the negative product is a large unsigned
  value, which the comparison with the maximum step replaces by the maximum. The call does
  what the call with the volume 100 does.\<close>

theorem set_volume_negative_gives_maximum:
  assumes neg: "volume <s 0"
    and ne: "widgets path \<noteq> []"
    and out: "wtype (store (last (widgets path))) = AUDIO_OUT"
    and mx: "max_step = out_amp_caps (store (last (widgets path))) AND 0x7F"
  shows "uhda_path_set_volume cdc store path volume =
           Some (cdc (set_amp_gain_mute (nid (store (last (widgets path)))) (0xB000 OR ucast max_step)),
                 path\<lparr>gain := max_step\<rparr>,
                 [set_amp_gain_mute (nid (store (last (widgets path)))) (0xB000 OR ucast max_step)])
       \<and> uhda_path_set_volume cdc store path volume = uhda_path_set_volume cdc store path 100"
proof -
  have hundred: "uhda_path_set_volume cdc store path 100 =
           Some (cdc (set_amp_gain_mute (nid (store (last (widgets path)))) (0xB000 OR ucast max_step)),
                 path\<lparr>gain := max_step\<rparr>,
                 [set_amp_gain_mute (nid (store (last (widgets path)))) (0xB000 OR ucast max_step)])"
    using set_volume_nonneg [where volume = 100 and path = path and store = store
        and max_step = max_step and step = max_step and cdc = cdc] ne out mx
    by (simp add: word_sle_eq)
  have "max_step \<le> 127" unfolding mx by (rule word_and_le1)
  then have big: "max_step < volume"
    using negative_is_large [OF neg] by simp
  have big': "out_amp_caps (store (last (widgets path))) AND 0x7F < volume"
    using big by (simp add: mx)
  have negative: "uhda_path_set_volume cdc store path volume =
           Some (cdc (set_amp_gain_mute (nid (store (last (widgets path)))) (0xB000 OR ucast max_step)),
                 path\<lparr>gain := max_step\<rparr>,
                 [set_amp_gain_mute (nid (store (last (widgets path)))) (0xB000 OR ucast max_step)])"
    unfolding uhda_path_set_volume_def Let_def
    apply (simp only: one_percentage_is_1 [OF max_value_le] max_value_back)
    using negative_not_above_100 [OF neg] ne out big'
    apply (simp only: if_False if_True simp_thms ucast_one mult_1 amp_word_ucast)
    apply (simp add: mx)
    done
  from negative hundred show ?thesis by simp
qed

theorem set_volume_negative_gives_maximum_witness:
  "(-5 :: 32 word) <s 0
   \<and> uhda_path_set_volume ok_codec example_store example_path (-5) =
       Some (UHDA_STATUS_SUCCESS, example_path\<lparr>gain := 0x42\<rparr>, [set_amp_gain_mute 0x02 0xB042])
   \<and> uhda_path_set_volume ok_codec example_store example_path 100 =
       Some (UHDA_STATUS_SUCCESS, example_path\<lparr>gain := 0x42\<rparr>, [set_amp_gain_mute 0x02 0xB042])"
proof -
  have neg: "(-5 :: 32 word) <s 0" by (simp add: word_sless_alt)
  have ne: "widgets example_path \<noteq> []" by (simp add: example_path_def)
  have lst: "example_store (last (widgets example_path)) = dac_widget"
    by (simp add: example_store_def example_path_def)
  have out: "wtype (example_store (last (widgets example_path))) = AUDIO_OUT"
    by (simp add: lst dac_widget_def)
  have mx: "(0x42 :: 32 word) = out_amp_caps (example_store (last (widgets example_path))) AND 0x7F"
    by (simp add: lst dac_widget_def)
  have hundred: "uhda_path_set_volume ok_codec example_store example_path 100 =
       Some (UHDA_STATUS_SUCCESS, example_path\<lparr>gain := 0x42\<rparr>, [set_amp_gain_mute 0x02 0xB042])"
    by (simp add: uhda_path_set_volume_def lst dac_widget_def ok_codec_def Let_def word_sless_alt ne)
  from set_volume_negative_gives_maximum
      [where volume = "-5" and path = example_path and store = example_store and cdc = ok_codec,
        OF neg ne out mx, THEN conjunct1] neg hundred
  show ?thesis by (simp add: lst dac_widget_def ok_codec_def)
qed

text \<open>Claim C5, where the code leaves it. The volume is capped at 100 but not raised to
  0: at the volume \<open>-1\<close> the converter of the example codec, whose maximum step is 66, is
  set to the step 66, at the volume 0 to the step 0 and at the volume 50 to the step 50.
  The step is therefore not monotonic over all integers, and a volume below 0 is not
  treated as 0.\<close>

theorem set_volume_below_zero_is_loudest:
  "uhda_path_set_volume ok_codec example_store example_path (-1) =
      Some (UHDA_STATUS_SUCCESS, example_path\<lparr>gain := 66\<rparr>, [set_amp_gain_mute 0x02 0xB042])
   \<and> uhda_path_set_volume ok_codec example_store example_path 0 =
      Some (UHDA_STATUS_SUCCESS, example_path\<lparr>gain := 0\<rparr>, [set_amp_gain_mute 0x02 0xB000])
   \<and> uhda_path_set_volume ok_codec example_store example_path 50 =
      Some (UHDA_STATUS_SUCCESS, example_path\<lparr>gain := 50\<rparr>, [set_amp_gain_mute 0x02 0xB032])
   \<and> (-1 :: 32 word) <s 0"
proof -
  have lst: "example_store (last (widgets example_path)) = dac_widget"
    by (simp add: example_store_def example_path_def)
  have ne: "widgets example_path \<noteq> []" by (simp add: example_path_def)
  show ?thesis
    by (simp add: uhda_path_set_volume_def lst dac_widget_def ok_codec_def Let_def word_sless_alt ne)
qed

section \<open>Codec enumeration\<close>

lemma enum_prefix:
  assumes "i \<le> k" "k \<le> 15"
    and "\<forall>j. i \<le> j \<and> j < k \<and> statests AND push_bit j 1 \<noteq> 0 \<longrightarrow> tolerated env j"
  shows "resume_enumerate env statests i \<lparr>codecs = cs, freed = fs\<rparr> =
         resume_enumerate env statests k
           \<lparr>codecs = cs @ filter (\<lambda>j. statests AND push_bit j 1 \<noteq> 0 \<and> codec_init env j = UHDA_STATUS_SUCCESS) [i..<k],
            freed = fs @ filter (\<lambda>j. statests AND push_bit j 1 \<noteq> 0 \<and> codec_init env j = UHDA_STATUS_TIMEOUT) [i..<k]\<rparr>"
  using assms
proof (induction k rule: dec_induct)
  case base
  then show ?case by simp
next
  case (step n)
  have n15: "n < 15" using step.prems by simp
  have prem: "\<forall>j. i \<le> j \<and> j < n \<and> statests AND push_bit j 1 \<noteq> 0 \<longrightarrow> tolerated env j"
    using step.prems by auto
  have tol: "statests AND push_bit n 1 \<noteq> 0 \<longrightarrow> tolerated env n"
    using step.prems step.hyps by auto
  have n': "n \<le> 15" using n15 by simp
  show ?case
    unfolding step.IH [OF n' prem]
    apply (subst resume_enumerate.simps)
    using n15 tol step.hyps
    by (auto simp: tolerated_def Let_def)
qed

lemma enum_all_tolerated:
  assumes "\<forall>j. j < 15 \<and> statests AND push_bit j 1 \<noteq> 0 \<longrightarrow> tolerated env j"
  shows "resume_enumerate env statests 0 \<lparr>codecs = [], freed = []\<rparr> =
           (UHDA_STATUS_SUCCESS,
            \<lparr>codecs = filter (\<lambda>j. statests AND push_bit j 1 \<noteq> 0 \<and> codec_init env j = UHDA_STATUS_SUCCESS) [0..<15],
             freed = filter (\<lambda>j. statests AND push_bit j 1 \<noteq> 0 \<and> codec_init env j = UHDA_STATUS_TIMEOUT) [0..<15]\<rparr>)"
  using enum_prefix [of 0 15 statests env "[]" "[]"] assms
  by (simp add: resume_enumerate.simps [of _ _ 15])

lemma enum_first_fatal:
  assumes k: "k < 15" "statests AND push_bit k 1 \<noteq> 0"
    and before: "\<forall>j. j < k \<and> statests AND push_bit j 1 \<noteq> 0 \<longrightarrow> tolerated env j"
  shows "\<not> malloc_ok env k \<longrightarrow>
           fst (resume_enumerate env statests 0 \<lparr>codecs = [], freed = []\<rparr>) = UHDA_STATUS_NO_MEMORY"
    and "malloc_ok env k \<and> codec_init env k \<noteq> UHDA_STATUS_TIMEOUT \<and> codec_init env k \<noteq> UHDA_STATUS_SUCCESS \<longrightarrow>
           fst (resume_enumerate env statests 0 \<lparr>codecs = [], freed = []\<rparr>) = codec_init env k
         \<and> k \<in> set (freed (snd (resume_enumerate env statests 0 \<lparr>codecs = [], freed = []\<rparr>)))
         \<and> k \<notin> set (codecs (snd (resume_enumerate env statests 0 \<lparr>codecs = [], freed = []\<rparr>)))"
    and "malloc_ok env k \<and> codec_init env k = UHDA_STATUS_SUCCESS \<and> \<not> push_ok env k \<longrightarrow>
           fst (resume_enumerate env statests 0 \<lparr>codecs = [], freed = []\<rparr>) = UHDA_STATUS_NO_MEMORY"
proof -
  have pre: "resume_enumerate env statests 0 \<lparr>codecs = [], freed = []\<rparr> =
         resume_enumerate env statests k
           \<lparr>codecs = filter (\<lambda>j. statests AND push_bit j 1 \<noteq> 0 \<and> codec_init env j = UHDA_STATUS_SUCCESS) [0..<k],
            freed = filter (\<lambda>j. statests AND push_bit j 1 \<noteq> 0 \<and> codec_init env j = UHDA_STATUS_TIMEOUT) [0..<k]\<rparr>"
    using enum_prefix [of 0 k statests env "[]" "[]"] k before by simp
  show "\<not> malloc_ok env k \<longrightarrow>
           fst (resume_enumerate env statests 0 \<lparr>codecs = [], freed = []\<rparr>) = UHDA_STATUS_NO_MEMORY"
    unfolding pre using k by (simp add: resume_enumerate.simps [of _ _ k])
  show "malloc_ok env k \<and> codec_init env k \<noteq> UHDA_STATUS_TIMEOUT \<and> codec_init env k \<noteq> UHDA_STATUS_SUCCESS \<longrightarrow>
           fst (resume_enumerate env statests 0 \<lparr>codecs = [], freed = []\<rparr>) = codec_init env k
         \<and> k \<in> set (freed (snd (resume_enumerate env statests 0 \<lparr>codecs = [], freed = []\<rparr>)))
         \<and> k \<notin> set (codecs (snd (resume_enumerate env statests 0 \<lparr>codecs = [], freed = []\<rparr>)))"
    unfolding pre using k by (simp add: resume_enumerate.simps [of _ _ k] Let_def)
  show "malloc_ok env k \<and> codec_init env k = UHDA_STATUS_SUCCESS \<and> \<not> push_ok env k \<longrightarrow>
           fst (resume_enumerate env statests 0 \<lparr>codecs = [], freed = []\<rparr>) = UHDA_STATUS_NO_MEMORY"
    unfolding pre using k by (simp add: resume_enumerate.simps [of _ _ k] Let_def)
qed

text \<open>Claim C8. When every codec that answers on the link is allocated and its \<open>init\<close>
  either succeeds or times out, the enumeration returns success, keeps exactly the codecs
  whose \<open>init\<close> succeeded and has destroyed and freed exactly those that timed out. At
  the first codec that is not so, the enumeration returns: \<open>UHDA_STATUS_NO_MEMORY\<close> when
  the codec object could not be allocated, the status of \<open>init\<close> when that is neither
  success nor a timeout (the codec is then destroyed and freed, not kept), and
  \<open>UHDA_STATUS_NO_MEMORY\<close> when the codec could not be added to \<open>codecs\<close>.\<close>

theorem resume_enumerate_timeout_not_fatal:
  fixes env :: enum_env and statests :: "16 word"
  defines "result \<equiv> resume_enumerate env statests 0 \<lparr>codecs = [], freed = []\<rparr>"
  shows "((\<forall>j. j < 15 \<and> statests AND push_bit j 1 \<noteq> 0 \<longrightarrow> tolerated env j) \<longrightarrow>
            result =
              (UHDA_STATUS_SUCCESS,
               \<lparr>codecs = filter (\<lambda>j. statests AND push_bit j 1 \<noteq> 0
                                    \<and> codec_init env j = UHDA_STATUS_SUCCESS) [0..<15],
                freed = filter (\<lambda>j. statests AND push_bit j 1 \<noteq> 0
                                   \<and> codec_init env j = UHDA_STATUS_TIMEOUT) [0..<15]\<rparr>))
       \<and> (k < 15 \<and> statests AND push_bit k 1 \<noteq> 0
           \<and> (\<forall>j. j < k \<and> statests AND push_bit j 1 \<noteq> 0 \<longrightarrow> tolerated env j) \<longrightarrow>
            (\<not> malloc_ok env k \<longrightarrow> fst result = UHDA_STATUS_NO_MEMORY)
          \<and> (malloc_ok env k \<and> codec_init env k \<noteq> UHDA_STATUS_TIMEOUT
               \<and> codec_init env k \<noteq> UHDA_STATUS_SUCCESS \<longrightarrow>
                fst result = codec_init env k
              \<and> k \<in> set (freed (snd result)) \<and> k \<notin> set (codecs (snd result)))
          \<and> (malloc_ok env k \<and> codec_init env k = UHDA_STATUS_SUCCESS \<and> \<not> push_ok env k \<longrightarrow>
                fst result = UHDA_STATUS_NO_MEMORY))"
  unfolding result_def
  using enum_all_tolerated [of statests env] enum_first_fatal [of k statests env]
  by blast

theorem resume_enumerate_timeout_not_fatal_witness:
  "resume_enumerate env_timeout 7 0 \<lparr>codecs = [], freed = []\<rparr> =
     (UHDA_STATUS_SUCCESS, \<lparr>codecs = [0, 2], freed = [1]\<rparr>)
   \<and> fst (resume_enumerate env_unsupported 7 0 \<lparr>codecs = [], freed = []\<rparr>) = UHDA_STATUS_UNSUPPORTED
   \<and> 2 \<in> set (freed (snd (resume_enumerate env_unsupported 7 0 \<lparr>codecs = [], freed = []\<rparr>)))
   \<and> fst (resume_enumerate env_no_memory 7 0 \<lparr>codecs = [], freed = []\<rparr>) = UHDA_STATUS_NO_MEMORY"
proof -
  have tol: "\<forall>j. j < 15 \<and> (7 :: 16 word) AND push_bit j 1 \<noteq> 0 \<longrightarrow> tolerated env_timeout j"
    by (simp add: tolerated_def env_timeout_def)
  have present: "(2 :: nat) < 15 \<and> (7 :: 16 word) AND push_bit 2 1 \<noteq> 0"
    by simp
  have before_u: "\<forall>j. j < 2 \<and> (7 :: 16 word) AND push_bit j 1 \<noteq> 0 \<longrightarrow> tolerated env_unsupported j"
    by (simp add: tolerated_def env_unsupported_def)
  have before_m: "\<forall>j. j < 2 \<and> (7 :: 16 word) AND push_bit j 1 \<noteq> 0 \<longrightarrow> tolerated env_no_memory j"
    by (simp add: tolerated_def env_no_memory_def)
  have fatal_u: "malloc_ok env_unsupported 2 \<and> codec_init env_unsupported 2 \<noteq> UHDA_STATUS_TIMEOUT
      \<and> codec_init env_unsupported 2 \<noteq> UHDA_STATUS_SUCCESS"
    "codec_init env_unsupported 2 = UHDA_STATUS_UNSUPPORTED"
    by (simp_all add: env_unsupported_def)
  have fatal_m: "\<not> malloc_ok env_no_memory 2"
    by (simp add: env_no_memory_def)
  have kept: "filter (\<lambda>j. (7 :: 16 word) AND push_bit j 1 \<noteq> 0
                 \<and> codec_init env_timeout j = UHDA_STATUS_SUCCESS) [0..<15] = [0, 2]"
    "filter (\<lambda>j. (7 :: 16 word) AND push_bit j 1 \<noteq> 0
                 \<and> codec_init env_timeout j = UHDA_STATUS_TIMEOUT) [0..<15] = [1]"
    by (simp_all add: env_timeout_def upt_rec)
  have a: "resume_enumerate env_timeout 7 0 \<lparr>codecs = [], freed = []\<rparr> =
     (UHDA_STATUS_SUCCESS, \<lparr>codecs = [0, 2], freed = [1]\<rparr>)"
    using resume_enumerate_timeout_not_fatal [where statests = 7 and env = env_timeout and k = 0, THEN conjunct1, THEN mp, OF tol]
    unfolding kept .
  have b: "fst (resume_enumerate env_unsupported 7 0 \<lparr>codecs = [], freed = []\<rparr>) = UHDA_STATUS_UNSUPPORTED
     \<and> 2 \<in> set (freed (snd (resume_enumerate env_unsupported 7 0 \<lparr>codecs = [], freed = []\<rparr>)))"
    using resume_enumerate_timeout_not_fatal [where statests = 7 and env = env_unsupported and k = 2, THEN conjunct2, THEN mp,
        OF conjI [OF conjunct1 [OF present] conjI [OF conjunct2 [OF present] before_u]]] fatal_u
    by simp
  have c: "fst (resume_enumerate env_no_memory 7 0 \<lparr>codecs = [], freed = []\<rparr>) = UHDA_STATUS_NO_MEMORY"
    using resume_enumerate_timeout_not_fatal [where statests = 7 and env = env_no_memory and k = 2, THEN conjunct2, THEN mp,
        OF conjI [OF conjunct1 [OF present] conjI [OF conjunct2 [OF present] before_m]]] fatal_m
    by simp
  from a b c show ?thesis by simp
qed

section \<open>Ring sizes\<close>

lemma field_get_put:
  assumes "field_in f LENGTH('a)"
  shows "field_get (field_clear (v :: 'a::len word) f OR field_val f x) f = x AND mask (bf_bits f)"
  using assms unfolding field_get_def field_clear_def field_val_def field_in_def
  by (intro bit_eqI) (auto simp: bit_simps)

lemma field_clear_put:
  "field_clear (field_clear (v :: 'a::len word) f OR field_val f x) f = field_clear v f"
  unfolding field_get_def field_clear_def field_val_def
  by (intro bit_eqI) (auto simp: bit_simps)

lemma cap_bits:
  fixes c :: "8 word"
  shows "c AND 4 \<noteq> 0 \<longleftrightarrow> bit c 2" "c AND 2 \<noteq> 0 \<longleftrightarrow> bit c 1"
  using bit_iff_and_push_bit_not_eq_0 [of c 2] bit_iff_and_push_bit_not_eq_0 [of c 1]
  by simp_all

lemma resume_corb_size_eq:
  "resume_corb_size SZCAP SIZE reg =
     (let cap = field_get reg SZCAP;
          n = (if bit cap 2 then 256 else if bit cap 1 then 16 else 2)
      in (n, if cap \<noteq> push_bit 1 (size_code n)
             then Some (field_clear reg SIZE OR field_val SIZE (size_code n)) else None))"
  by (simp add: resume_corb_size_def Let_def cap_bits size_code_def)

lemma small_code_masked:
  assumes "2 \<le> n"
  shows "(2 :: 8 word) AND mask n = 2" "(1 :: 8 word) AND mask n = 1"
proof -
  have "(2 :: int) ^ 2 \<le> 2 ^ n" using assms by (intro power_increasing) simp_all
  then have "(4 :: int) \<le> 2 ^ n" by simp
  then have "uint (2 :: 8 word) < 2 ^ n" "uint (1 :: 8 word) < 2 ^ n" by simp_all
  then show "(2 :: 8 word) AND mask n = 2" "(1 :: 8 word) AND mask n = 1"
    by (simp_all only: mask_eq_iff)
qed

lemma cap_bit0:
  fixes c :: "8 word"
  shows "c AND 1 \<noteq> 0 \<longleftrightarrow> bit c 0"
  using bit_iff_and_push_bit_not_eq_0 [of c 0] by simp

lemma chosen_facts:
  fixes cap :: "8 word"
  defines "n \<equiv> (if bit cap 2 then 256 else if bit cap 1 then 16 else (2::nat))"
  shows "\<forall>m. cap_supports cap m \<longrightarrow> m \<le> n"
    and "cap AND 7 \<noteq> 0 \<longrightarrow> cap_supports cap n"
    and "n \<in> {2, 16, 256}"
    and "n \<noteq> 2 \<longrightarrow> (cap = push_bit 1 (size_code n) \<longleftrightarrow> cap = cap_bit n)"
proof -
  show "\<forall>m. cap_supports cap m \<longrightarrow> m \<le> n"
    by (auto simp: cap_supports_def cap_bit_def n_def cap_bits cap_bit0)
  have "cap AND 7 \<noteq> 0 \<Longrightarrow> bit cap 0 \<or> bit cap 1 \<or> bit cap 2"
  proof (rule ccontr)
    assume a: "cap AND 7 \<noteq> 0" and nb: "\<not> (bit cap 0 \<or> bit cap 1 \<or> bit cap 2)"
    have "cap AND mask 3 = 0"
    proof (rule bit_eqI)
      fix k :: nat
      have "k < 3 \<Longrightarrow> k = 0 \<or> k = 1 \<or> k = 2" by arith
      then show "bit (cap AND mask 3) k = bit (0 :: 8 word) k"
        using nb by (auto simp: bit_simps)
    qed
    then show False using a by (simp add: mask_eq_exp_minus_1)
  qed
  then show "cap AND 7 \<noteq> 0 \<longrightarrow> cap_supports cap n"
    by (auto simp: cap_supports_def cap_bit_def n_def cap_bits cap_bit0)
  show "n \<in> {2, 16, 256}" by (simp add: n_def)
  show "n \<noteq> 2 \<longrightarrow> (cap = push_bit 1 (size_code n) \<longleftrightarrow> cap = cap_bit n)"
    by (simp add: n_def size_code_def cap_bit_def)
qed

text \<open>Claim C1, as the code has it. For the CORB and for the RIRB alike the driver takes
  the largest entry count whose capability bit is set, 256 over 16 over 2 (and 2 when no
  bit is set). Whether it stores the size register is decided by the capability field
  alone, never by the size field: when 256 or 16 entries are chosen, the register is left
  alone exactly when the capability field holds the bit of the chosen count and nothing
  else. A value that is stored has the size field at the code of the chosen count and
  every other bit as it was read.\<close>

theorem resume_ring_size_by_capability:
  fixes SZCAP SIZE :: BitField and reg reg' :: "8 word"
  defines "cap \<equiv> field_get reg SZCAP"
  defines "result \<equiv> resume_corb_size SZCAP SIZE reg"
  shows "resume_rirb_size SZCAP SIZE reg = result
       \<and> (\<forall>n. cap_supports cap n \<longrightarrow> n \<le> fst result)
       \<and> (cap AND 7 \<noteq> 0 \<longrightarrow> cap_supports cap (fst result))
       \<and> fst result \<in> {2, 16, 256}
       \<and> (fst result \<noteq> 2 \<longrightarrow> (snd result = None \<longleftrightarrow> cap = cap_bit (fst result)))
       \<and> (field_get reg' SZCAP = cap \<longrightarrow>
            (snd (resume_corb_size SZCAP SIZE reg') = None \<longleftrightarrow> snd result = None))
       \<and> (field_in SIZE 8 \<and> 2 \<le> bf_bits SIZE \<longrightarrow>
            (\<forall>v. snd result = Some v \<longrightarrow>
               field_get v SIZE = size_code (fst result) \<and> field_clear v SIZE = field_clear reg SIZE))
       \<and> (cap AND 7 = 0 \<longrightarrow> fst result = 2)
       \<and> fst result = (if cap_supports cap 256 then 256 else if cap_supports cap 16 then 16 else 2)"
proof -
  let ?n = "if bit cap 2 then 256 else if bit cap 1 then 16 else (2::nat)"
  have fst_r: "fst result = ?n"
    by (simp add: result_def cap_def resume_corb_size_eq Let_def)
  have snd_r: "snd result = (if cap \<noteq> push_bit 1 (size_code ?n)
             then Some (field_clear reg SIZE OR field_val SIZE (size_code ?n)) else None)"
    by (simp add: result_def cap_def resume_corb_size_eq Let_def)
  have A: "resume_rirb_size SZCAP SIZE reg = result"
    by (simp add: result_def resume_rirb_size_def resume_corb_size_def)
  note cf = chosen_facts [of cap, folded fst_r]
  have E: "fst result \<noteq> 2 \<longrightarrow> (snd result = None \<longleftrightarrow> cap = cap_bit (fst result))"
    using cf(4) unfolding snd_r fst_r by simp
  have F: "field_get reg' SZCAP = cap \<longrightarrow>
            (snd (resume_corb_size SZCAP SIZE reg') = None \<longleftrightarrow> snd result = None)"
    by (simp add: result_def cap_def resume_corb_size_eq Let_def)
  have G: "field_in SIZE 8 \<and> 2 \<le> bf_bits SIZE \<longrightarrow>
            (\<forall>v. snd result = Some v \<longrightarrow>
               field_get v SIZE = size_code (fst result) \<and> field_clear v SIZE = field_clear reg SIZE)"
  proof (intro impI allI, elim conjE)
    fix v assume fi: "field_in SIZE 8" and w: "2 \<le> bf_bits SIZE" and v: "snd result = Some v"
    have v': "v = field_clear reg SIZE OR field_val SIZE (size_code (fst result))"
      using v unfolding snd_r fst_r by (simp split: if_splits)
    have m: "size_code (fst result) AND mask (bf_bits SIZE) = size_code (fst result)"
      using small_code_masked [OF w] by (simp add: size_code_def)
    have fi': "field_in SIZE LENGTH(8)" using fi by simp
    show "field_get v SIZE = size_code (fst result) \<and> field_clear v SIZE = field_clear reg SIZE"
      unfolding v' by (simp add: field_get_put [OF fi'] field_clear_put m)
  qed
  have I: "fst result = (if cap_supports cap 256 then 256 else if cap_supports cap 16 then 16 else 2)"
    unfolding fst_r by (simp add: cap_supports_def cap_bit_def cap_bits)
  have H: "cap AND 7 = 0 \<longrightarrow> fst result = 2"
  proof
    assume z: "cap AND 7 = 0"
    have "\<not> cap_supports cap (fst result)"
    proof
      assume "cap_supports cap (fst result)"
      then have "cap AND cap_bit (fst result) \<noteq> 0" by (simp add: cap_supports_def)
      moreover have "cap AND cap_bit (fst result) = (cap AND 7) AND cap_bit (fst result)"
        by (simp add: cap_bit_def and.assoc)
      ultimately show False using z by simp
    qed
    then show "fst result = 2" unfolding I by (simp split: if_splits)
  qed
  from A cf(1) cf(2) cf(3) E F G H I show ?thesis by blast
qed

theorem resume_ring_size_by_capability_witness:
  "resume_corb_size hda_SZCAP hda_SIZE 0x42 = (256, None)
   \<and> resume_rirb_size hda_SZCAP hda_SIZE 0x42 = (256, None)
   \<and> snd (resume_corb_size hda_SZCAP hda_SIZE 0x40) = None
   \<and> cap_supports (field_get (0x42 :: 8 word) hda_SZCAP) 256
   \<and> resume_corb_size hda_SZCAP hda_SIZE 0x70 = (256, Some 0x72)
   \<and> field_get (0x72 :: 8 word) hda_SIZE = 2
   \<and> field_clear (0x72 :: 8 word) hda_SIZE = field_clear 0x70 hda_SIZE
   \<and> fst (resume_corb_size hda_SZCAP hda_SIZE 0x00) = 2
   \<and> fst (resume_corb_size hda_SZCAP hda_SIZE 0x20) = 16"
proof -
  have cap42: "field_get (0x42 :: 8 word) hda_SZCAP = 4" "field_get (0x40 :: 8 word) hda_SZCAP = 4"
    by (simp_all add: field_get_def hda_SZCAP_def mask_eq_exp_minus_1)
  have r42: "resume_corb_size hda_SZCAP hda_SIZE 0x42 = (256, None)"
    by (simp add: resume_corb_size_def cap42)
  have r70: "resume_corb_size hda_SZCAP hda_SIZE 0x70 = (256, Some 0x72)"
    by (simp add: resume_corb_size_def field_get_def field_clear_def field_val_def hda_SIZE_def
        hda_SZCAP_def mask_eq_exp_minus_1)
  have fi: "field_in hda_SIZE 8 \<and> 2 \<le> bf_bits hda_SIZE"
    by (simp add: field_in_def hda_SIZE_def)
  note t42 = resume_ring_size_by_capability
    [where SZCAP = hda_SZCAP and SIZE = hda_SIZE and reg = "0x42" and reg' = "0x40"]
  note t70 = resume_ring_size_by_capability
    [where SZCAP = hda_SZCAP and SIZE = hda_SIZE and reg = "0x70" and reg' = "0x70"]
  have a: "resume_rirb_size hda_SZCAP hda_SIZE 0x42 = (256, None)"
    using t42 [THEN conjunct1] r42 by simp
  have b: "cap_supports (field_get (0x42 :: 8 word) hda_SZCAP) 256"
    using t42 [THEN conjunct2, THEN conjunct2, THEN conjunct1] r42 by (simp add: cap42)
  have c: "snd (resume_corb_size hda_SZCAP hda_SIZE 0x40) = None"
    using t42 [THEN conjunct2, THEN conjunct2, THEN conjunct2, THEN conjunct2, THEN conjunct2,
        THEN conjunct1] r42 by (simp add: cap42)
  have d: "field_get (0x72 :: 8 word) hda_SIZE = 2
      \<and> field_clear (0x72 :: 8 word) hda_SIZE = field_clear 0x70 hda_SIZE"
    using t70 [THEN conjunct2, THEN conjunct2, THEN conjunct2, THEN conjunct2, THEN conjunct2,
        THEN conjunct2, THEN conjunct1, THEN mp, OF fi] r70 by (simp add: size_code_def)
  have e: "(256 :: nat) \<le> fst (resume_corb_size hda_SZCAP hda_SIZE 0x42)"
    using t42 [THEN conjunct2, THEN conjunct1, THEN spec, THEN mp, OF b] .
  have f: "snd (resume_corb_size hda_SZCAP hda_SIZE 0x42) = None"
  proof -
    have chosen: "fst (resume_corb_size hda_SZCAP hda_SIZE 0x42) = 256"
      by (simp add: r42)
    show ?thesis
      using t42 [THEN conjunct2, THEN conjunct2, THEN conjunct2, THEN conjunct2, THEN conjunct1]
      unfolding chosen by (simp add: cap42 cap_bit_def)
  qed
  have cap00: "field_get (0x00 :: 8 word) hda_SZCAP AND 7 = 0"
    by (simp add: field_get_def)
  have g: "fst (resume_corb_size hda_SZCAP hda_SIZE 0x00) = 2"
    using resume_ring_size_by_capability
      [where SZCAP = hda_SZCAP and SIZE = hda_SIZE and reg = "0x00" and reg' = "0x00",
        THEN conjunct2, THEN conjunct2, THEN conjunct2, THEN conjunct2, THEN conjunct2,
        THEN conjunct2, THEN conjunct2, THEN conjunct1, THEN mp, OF cap00] .
  have cap20: "field_get (0x20 :: 8 word) hda_SZCAP = 2"
    by (simp add: field_get_def hda_SZCAP_def mask_eq_exp_minus_1)
  have h: "fst (resume_corb_size hda_SZCAP hda_SIZE 0x20) = 16"
    using resume_ring_size_by_capability
      [where SZCAP = hda_SZCAP and SIZE = hda_SIZE and reg = "0x20" and reg' = "0x20",
        THEN conjunct2, THEN conjunct2, THEN conjunct2, THEN conjunct2, THEN conjunct2,
        THEN conjunct2, THEN conjunct2, THEN conjunct2]
    by (simp add: cap20 cap_supports_def cap_bit_def)
  from r42 a b c r70 d e f g h show ?thesis by simp
qed

text \<open>Against claim C1 as it is written: with every size supported and the size field
  already at the code for 256 entries, the driver chooses 256 entries and stores the size
  register again.\<close>

theorem resume_ring_size_counterexample:
  "field_get (0x72 :: 8 word) hda_SIZE = size_code 256
   \<and> resume_corb_size hda_SZCAP hda_SIZE 0x72 = (256, Some 0x72)
   \<and> resume_rirb_size hda_SZCAP hda_SIZE 0x72 = (256, Some 0x72)"
  by (simp add: resume_corb_size_def resume_rirb_size_def field_get_def field_clear_def
      field_val_def hda_SIZE_def hda_SZCAP_def mask_eq_exp_minus_1 size_code_def)

section \<open>Waiting for the hardware\<close>

lemma verb_wait_delay:
  "delayed_us (snd (verb_wait_loop reads WP idx i c)) = delayed_us c"
proof (induction reads WP idx i c rule: verb_wait_loop.induct)
  case (1 reads WP idx i c)
  show ?case
    by (subst verb_wait_loop.simps) (use 1 in auto)
qed

lemma verb_wait_never_from:
  assumes "i \<le> 5 * 2000"
    and "\<forall>k. i \<le> k \<and> k < 5 * 2000 \<longrightarrow> ucast (field_get (reads k) WP) \<noteq> idx"
  shows "verb_wait_loop reads WP idx i c = (False, c\<lparr>loads := loads c + (5 * 2000 - i)\<rparr>)"
  using assms
proof (induction reads WP idx i c rule: verb_wait_loop.induct)
  case (1 reads WP idx i c)
  show ?case
  proof (cases "i = 5 * 2000")
    case True
    then show ?thesis by (subst verb_wait_loop.simps) simp
  next
    case False
    then have lt: "i < 5 * 2000" using "1.prems" by simp
    then have nm: "ucast (field_get (reads i) WP) \<noteq> idx" using "1.prems" by simp
    have "verb_wait_loop reads WP idx (i + 1) (c\<lparr>loads := loads c + 1\<rparr>) =
            (False, c\<lparr>loads := loads c + 1 + (5 * 2000 - (i + 1))\<rparr>)"
      using "1.IH" lt nm "1.prems" by simp
    then show ?thesis
      using lt nm by (subst verb_wait_loop.simps) (simp add: Suc_diff_Suc)
  qed
qed

lemma verb_wait_first_from:
  assumes "i \<le> n" "n < 5 * 2000"
    and "ucast (field_get (reads n) WP) = idx"
    and "\<forall>k. i \<le> k \<and> k < n \<longrightarrow> ucast (field_get (reads k) WP) \<noteq> idx"
  shows "verb_wait_loop reads WP idx i c = (True, c\<lparr>loads := loads c + (n - i) + 1\<rparr>)"
  using assms
proof (induction reads WP idx i c rule: verb_wait_loop.induct)
  case (1 reads WP idx i c)
  show ?case
  proof (cases "i = n")
    case True
    then show ?thesis using "1.prems" by (subst verb_wait_loop.simps) simp
  next
    case False
    then have lt: "i < n" "i < 5 * 2000" using "1.prems" by simp_all
    then have nm: "ucast (field_get (reads i) WP) \<noteq> idx" using "1.prems" by simp
    have "verb_wait_loop reads WP idx (i + 1) (c\<lparr>loads := loads c + 1\<rparr>) =
            (True, c\<lparr>loads := loads c + 1 + (n - (i + 1)) + 1\<rparr>)"
      using "1.IH" lt nm "1.prems" by simp
    then show ?thesis
      using lt nm by (subst verb_wait_loop.simps) (simp add: Suc_diff_Suc)
  qed
qed

lemma reset_wait_never_from:
  assumes "i \<le> 5 * 2000"
    and "\<forall>k. i \<le> k \<and> k < 5 * 2000 \<longrightarrow> \<not> leave (reads k)"
  shows "reset_wait_loop reads leave i c =
           (False, c\<lparr>loads := loads c + (5 * 2000 - i), delayed_us := delayed_us c + 200 * (5 * 2000 - i)\<rparr>)"
  using assms
proof (induction reads leave i c rule: reset_wait_loop.induct)
  case (1 reads leave i c)
  show ?case
  proof (cases "i = 5 * 2000")
    case True
    then show ?thesis by (subst reset_wait_loop.simps) simp
  next
    case False
    then have lt: "i < 5 * 2000" using "1.prems" by simp
    then have nm: "\<not> leave (reads i)" using "1.prems" by simp
    have "reset_wait_loop reads leave (i + 1) (c\<lparr>loads := loads c + 1, delayed_us := delayed_us c + 200\<rparr>) =
            (False, c\<lparr>loads := loads c + 1 + (5 * 2000 - (i + 1)),
                       delayed_us := delayed_us c + 200 + 200 * (5 * 2000 - (i + 1))\<rparr>)"
      using "1.IH" lt nm "1.prems" by simp
    moreover have "200 + 200 * (5 * 2000 - (i + 1)) = 200 * (5 * 2000 - i)" using lt by simp
    ultimately show ?thesis
      using lt nm by (subst reset_wait_loop.simps) (simp add: Suc_diff_Suc add.assoc)
  qed
qed

text \<open>What \<open>wait_for_verb\<close> does in each of its three outcomes. The loads are counted;
  no outcome has passed any time to the delay primitive.\<close>

lemma wait_for_verb_success:
  assumes "n < 5 * 2000" "ucast (field_get (corbwp n) CORB_WP) = idx"
    and "\<forall>k. k < n \<longrightarrow> ucast (field_get (corbwp k) CORB_WP) \<noteq> idx"
    and "m < 5 * 2000" "ucast (field_get (rirbwp m) RIRB_WP) = idx"
    and "\<forall>k. k < m \<longrightarrow> ucast (field_get (rirbwp k) RIRB_WP) \<noteq> idx"
  shows "wait_for_verb corbwp rirbwp CORB_WP RIRB_WP rirb idx =
           (UHDA_STATUS_SUCCESS, Some (rirb idx), \<lparr>loads = n + 1 + (m + 1), delayed_us = 0\<rparr>)"
proof -
  have 1: "\<And>c. verb_wait_loop corbwp CORB_WP idx 0 c = (True, c\<lparr>loads := loads c + n + 1\<rparr>)"
    using verb_wait_first_from [of 0 n corbwp CORB_WP idx] assms(1-3) by simp
  have 2: "\<And>c. verb_wait_loop rirbwp RIRB_WP idx 0 c = (True, c\<lparr>loads := loads c + m + 1\<rparr>)"
    using verb_wait_first_from [of 0 m rirbwp RIRB_WP idx] assms(4-6) by simp
  show ?thesis by (simp add: wait_for_verb_def 1 2)
qed

lemma wait_for_verb_corb_timeout:
  assumes "\<forall>k. k < 5 * 2000 \<longrightarrow> ucast (field_get (corbwp k) CORB_WP) \<noteq> idx"
  shows "wait_for_verb corbwp rirbwp CORB_WP RIRB_WP rirb idx =
           (UHDA_STATUS_TIMEOUT, None, \<lparr>loads = 5 * 2000, delayed_us = 0\<rparr>)"
proof -
  have 1: "\<And>c. verb_wait_loop corbwp CORB_WP idx 0 c = (False, c\<lparr>loads := loads c + 5 * 2000\<rparr>)"
    using verb_wait_never_from [of 0 corbwp CORB_WP idx] assms by simp
  show ?thesis by (simp add: wait_for_verb_def 1)
qed

lemma wait_for_verb_rirb_timeout:
  assumes "n < 5 * 2000" "ucast (field_get (corbwp n) CORB_WP) = idx"
    and "\<forall>k. k < n \<longrightarrow> ucast (field_get (corbwp k) CORB_WP) \<noteq> idx"
    and "\<forall>k. k < 5 * 2000 \<longrightarrow> ucast (field_get (rirbwp k) RIRB_WP) \<noteq> idx"
  shows "wait_for_verb corbwp rirbwp CORB_WP RIRB_WP rirb idx =
           (UHDA_STATUS_TIMEOUT, None, \<lparr>loads = n + 1 + 5 * 2000, delayed_us = 0\<rparr>)"
proof -
  have 1: "\<And>c. verb_wait_loop corbwp CORB_WP idx 0 c = (True, c\<lparr>loads := loads c + n + 1\<rparr>)"
    using verb_wait_first_from [of 0 n corbwp CORB_WP idx] assms(1-3) by simp
  have 2: "\<And>c. verb_wait_loop rirbwp RIRB_WP idx 0 c = (False, c\<lparr>loads := loads c + 5 * 2000\<rparr>)"
    using verb_wait_never_from [of 0 rirbwp RIRB_WP idx] assms(4) by simp
  show ?thesis by (simp add: wait_for_verb_def 1 2)
qed

text \<open>Claim C3, where the code leaves it. With write pointers that stay at 0,
  \<open>wait_for_verb\<close> for index 1 returns \<open>UHDA_STATUS_TIMEOUT\<close> after 10000 loads and no
  delay at all; for index 0 it returns the response in slot 0 after two loads. The wait
  loops of \<open>resume\<close> and \<open>suspend\<close>, on hardware whose reset bit never changes, give up
  after the same 10000 loads and 10000 delays of 200 microseconds, two seconds in all.\<close>

theorem wait_for_verb_times_out_without_delay:
  "wait_for_verb stuck_at_zero stuck_at_zero hda_WP hda_WP numbered_rirb 1 =
     (UHDA_STATUS_TIMEOUT, None, \<lparr>loads = 10000, delayed_us = 0\<rparr>)
   \<and> wait_for_verb stuck_at_zero stuck_at_zero hda_WP hda_WP numbered_rirb 0 =
     (UHDA_STATUS_SUCCESS, Some (numbered_rirb 0), \<lparr>loads = 2, delayed_us = 0\<rparr>)
   \<and> resume_wait_reset stuck_at_zero hda_CRST = (False, \<lparr>loads = 10000, delayed_us = 2000000\<rparr>)
   \<and> suspend_wait_reset (\<lambda>k. 1) hda_CRST = (False, \<lparr>loads = 10000, delayed_us = 2000000\<rparr>)"
proof -
  have zero: "\<And>k. field_get (stuck_at_zero k :: 16 word) hda_WP = 0"
    by (simp add: stuck_at_zero_def field_get_def)
  have a: "wait_for_verb stuck_at_zero stuck_at_zero hda_WP hda_WP numbered_rirb 1 =
     (UHDA_STATUS_TIMEOUT, None, \<lparr>loads = 10000, delayed_us = 0\<rparr>)"
    using wait_for_verb_corb_timeout [of stuck_at_zero hda_WP 1 stuck_at_zero hda_WP numbered_rirb]
    by (simp add: zero)
  have b: "wait_for_verb stuck_at_zero stuck_at_zero hda_WP hda_WP numbered_rirb 0 =
     (UHDA_STATUS_SUCCESS, Some (numbered_rirb 0), \<lparr>loads = 2, delayed_us = 0\<rparr>)"
    using wait_for_verb_success [of 0 stuck_at_zero hda_WP 0 0 stuck_at_zero hda_WP numbered_rirb]
    by (simp add: zero)
  have c: "resume_wait_reset stuck_at_zero hda_CRST = (False, \<lparr>loads = 10000, delayed_us = 2000000\<rparr>)"
    unfolding resume_wait_reset_def
    using reset_wait_never_from [of 0 "\<lambda>v. field_get v hda_CRST \<noteq> 0" stuck_at_zero]
    by (simp add: stuck_at_zero_def field_get_def)
  have d: "suspend_wait_reset (\<lambda>k. 1) hda_CRST = (False, \<lparr>loads = 10000, delayed_us = 2000000\<rparr>)"
    unfolding suspend_wait_reset_def
    using reset_wait_never_from [of 0 "\<lambda>v. \<not> field_get v hda_CRST \<noteq> 0" "\<lambda>k. 1"]
    by (simp add: field_get_def hda_CRST_def)
  from a b c d show ?thesis by blast
qed

end
